theory Spec2Isabelle
  imports Complex_Main "HOL-Library.Word"
begin

unbundle bit_operations_syntax

section \<open>Data model\<close>

text \<open>
  A limb is a \<open>uint64_t\<close>; a multi-limb number is an array of limbs, least significant
  limb first. Arrays are modelled as lists, a pointer \<open>p + k\<close> into an array as
  \<open>drop k\<close> of the list. The intermediate type \<open>__uint128_t\<close> is a 128-bit word, so
  every cast, shift and wrap-around of the C code is a word operation here.
  C does not check array bounds: the theorems below state the buffer lengths they
  need as hypotheses.
\<close>

type_synonym u64 = "64 word"
type_synonym u128 = "128 word"
type_synonym u32 = "32 word"

text \<open>The unsigned integer a limb sequence stands for (index 0 least significant).\<close>

definition limbs_val :: "u64 list \<Rightarrow> nat" where
  "limbs_val xs = foldr (\<lambda>w acc. unat w + 2 ^ 64 * acc) xs 0"

section \<open>Limb arithmetic primitives (neon\_montgomery.cc, lines 38--86)\<close>

text \<open>
  \<open>add_with_carry(a, b, result, limb_count)\<close>: the loop over \<open>i = 0 .. limb_count - 1\<close>
  is a fold over \<open>[0..<limb_count]\<close> whose state is the result buffer and the carry.
  The function returns the final carry; the model returns the buffer with it.
\<close>

definition add_with_carry :: "u64 list \<Rightarrow> u64 list \<Rightarrow> u64 list \<Rightarrow> nat \<Rightarrow> u64 list \<times> u64" where
  "add_with_carry a b result limb_count =
     fold (\<lambda>i (result, carry).
             let sum = (ucast (a ! i) :: u128) + ucast (b ! i) + ucast carry
             in (result[i := ucast sum], ucast (drop_bit 64 sum)))
          [0..<limb_count] (result, 0)"

text \<open>
  \<open>sub_with_borrow\<close>: the difference is computed in 128 bits, where it wraps around;
  the borrow is 1 exactly when the upper 64 bits of the wrapped difference are not zero.
\<close>

definition sub_with_borrow :: "u64 list \<Rightarrow> u64 list \<Rightarrow> u64 list \<Rightarrow> nat \<Rightarrow> u64 list \<times> u64" where
  "sub_with_borrow a b result limb_count =
     fold (\<lambda>i (result, borrow).
             let diff = (ucast (a ! i) :: u128) - ucast (b ! i) - ucast borrow
             in (result[i := ucast diff], if drop_bit 64 diff \<noteq> 0 then 1 else 0))
          [0..<limb_count] (result, 0)"

text \<open>
  \<open>compare_limbs\<close>: the loop runs from \<open>i = limb_count - 1\<close> down to \<open>0\<close> and returns at
  the first limb that differs; the recursion is on the number of limbs still to compare.
\<close>

fun compare_limbs :: "u64 list \<Rightarrow> u64 list \<Rightarrow> nat \<Rightarrow> int" where
  "compare_limbs a b 0 = 0"
| "compare_limbs a b (Suc i) =
     (if a ! i < b ! i then - 1
      else if a ! i > b ! i then 1
      else compare_limbs a b i)"

section \<open>Montgomery multiplication (neon\_montgomery.cc, lines 94--317)\<close>

text \<open>\<open>mul64_neon\<close>: the 64 x 64 -> 128 bit product, returned as (low, high).\<close>

definition mul64_neon :: "u64 \<Rightarrow> u64 \<Rightarrow> u64 \<times> u64" where
  "mul64_neon a b =
     (let product = (ucast a :: u128) * ucast b
      in (ucast product, ucast (drop_bit 64 product)))"

text \<open>
  The carry propagation loop \<open>while (carry && k < 2 * limb_count)\<close> of
  \<open>neon_schoolbook_mul\<close> and \<open>neon_montgomery_reduce\<close>, which the scalar fallback writes
  \<open>for (k = i + 4; k < 8 && carry; k++)\<close>. The bound \<open>n\<close> is \<open>2 * limb_count\<close>: a carry
  that is still set when \<open>k\<close> reaches the end of the buffer is dropped.
\<close>

function propagate_carry :: "u64 list \<Rightarrow> u64 \<Rightarrow> nat \<Rightarrow> nat \<Rightarrow> u64 list" where
  "propagate_carry t carry k n =
     (if carry \<noteq> 0 \<and> k < n
      then (let sum = (ucast (t ! k) :: u128) + ucast carry
            in propagate_carry (t[k := ucast sum]) (ucast (drop_bit 64 sum)) (k + 1) n)
      else t)"
  by pat_completeness auto
termination
  by (relation "measure (\<lambda>(t, carry, k, n). n - k)") auto

text \<open>
  The inner loop over \<open>j\<close> of the NEON path (lines 118--126 and 161--168): it adds
  \<open>x * ys\<close> into \<open>t\<close> from limb \<open>i\<close> on and returns the buffer and the carry out of limb
  \<open>i + limb_count - 1\<close>. The carry \<open>hi + (uint64_t)(sum >> 64)\<close> is a 64-bit addition.
\<close>

definition neon_mul_add_row :: "u64 \<Rightarrow> u64 list \<Rightarrow> u64 list \<Rightarrow> nat \<Rightarrow> nat \<Rightarrow> u64 list \<times> u64" where
  "neon_mul_add_row x ys t i limb_count =
     fold (\<lambda>j (t, carry).
             let (lo, hi) = mul64_neon x (ys ! j);
                 sum = (ucast (t ! (i + j)) :: u128) + ucast lo + ucast carry
             in (t[i + j := ucast sum], hi + ucast (drop_bit 64 sum)))
          [0..<limb_count] (t, 0)"

text \<open>
  The inner loop over \<open>j\<close> of the scalar fallback (lines 221--225 and 233--237, and
  their 6-limb copies): product, limb and carry are added in one 128-bit expression.
\<close>

definition fallback_mul_add_row :: "u64 \<Rightarrow> u64 list \<Rightarrow> u64 list \<Rightarrow> nat \<Rightarrow> nat \<Rightarrow> u64 list \<times> u64" where
  "fallback_mul_add_row x ys t i limb_count =
     fold (\<lambda>j (t, carry).
             let product = (ucast x :: u128) * ucast (ys ! j) + ucast (t ! (i + j)) + ucast carry
             in (t[i + j := ucast product], ucast (drop_bit 64 product)))
          [0..<limb_count] (t, 0)"

text \<open>\<open>neon_schoolbook_mul\<close>: the result buffer of \<open>2 * limb_count\<close> limbs starts at zero (memset).\<close>

definition neon_schoolbook_mul :: "u64 list \<Rightarrow> u64 list \<Rightarrow> nat \<Rightarrow> u64 list" where
  "neon_schoolbook_mul a b limb_count =
     fold (\<lambda>i result.
             let (result, carry) = neon_mul_add_row (a ! i) b result i limb_count
             in propagate_carry result carry (i + limb_count) (2 * limb_count))
          [0..<limb_count] (replicate (2 * limb_count) 0)"

text \<open>
  The final reduction of both paths: \<open>if (compare_limbs(result, modulus, n) >= 0)
  sub_with_borrow(result, modulus, result, n)\<close>. The subtraction is in place; limb \<open>i\<close>
  of \<open>result\<close> is read before it is written and never read again, so passing the old
  buffer as first operand gives what the C code computes.
\<close>

definition final_reduction :: "u64 list \<Rightarrow> u64 list \<Rightarrow> nat \<Rightarrow> u64 list" where
  "final_reduction result modulus limb_count =
     (if compare_limbs result modulus limb_count \<ge> 0
      then fst (sub_with_borrow result modulus result limb_count)
      else result)"

text \<open>
  \<open>neon_montgomery_reduce\<close>: \<open>t\<close> has \<open>2 * limb_count\<close> limbs; \<open>m = t[i] * mu\<close> is a 64-bit
  product; \<open>memcpy(result, t + limb_count, ...)\<close> copies the upper half.
\<close>

definition neon_montgomery_reduce :: "u64 list \<Rightarrow> u64 list \<Rightarrow> u64 \<Rightarrow> nat \<Rightarrow> u64 list" where
  "neon_montgomery_reduce t modulus mu limb_count =
     (let t = fold (\<lambda>i t.
                      let m = t ! i * mu;
                          (t, carry) = neon_mul_add_row m modulus t i limb_count
                      in propagate_carry t carry (i + limb_count) (2 * limb_count))
                   [0..<limb_count] t;
          result = take limb_count (drop limb_count t)
      in final_reduction result modulus limb_count)"

text \<open>
  The scalar fallback of \<open>neon_montgomery_mul_4limb\<close> (lines 215--251) and of
  \<open>neon_montgomery_mul_6limb\<close> (lines 279--315) is the same code with the literal 4 or 6;
  the model takes the literal as \<open>limb_count\<close>. Its schoolbook loop stores the row's
  carry with the assignment \<open>t[i + 4] = carry\<close>.
\<close>

definition fallback_schoolbook_mul :: "u64 list \<Rightarrow> u64 list \<Rightarrow> nat \<Rightarrow> u64 list" where
  "fallback_schoolbook_mul a b limb_count =
     fold (\<lambda>i t.
             let (t, carry) = fallback_mul_add_row (a ! i) b t i limb_count
             in t[i + limb_count := carry])
          [0..<limb_count] (replicate (2 * limb_count) 0)"

definition fallback_montgomery_reduce :: "u64 list \<Rightarrow> u64 list \<Rightarrow> u64 \<Rightarrow> nat \<Rightarrow> u64 list" where
  "fallback_montgomery_reduce t modulus mu limb_count =
     (let t = fold (\<lambda>i t.
                      let m = t ! i * mu;
                          (t, carry) = fallback_mul_add_row m modulus t i limb_count
                      in propagate_carry t carry (i + limb_count) (2 * limb_count))
                   [0..<limb_count] t;
          result = take limb_count (drop limb_count t)
      in final_reduction result modulus limb_count)"

text \<open>
  The two entry points. \<open>NEON_AVAILABLE\<close> is the preprocessor constant that selects
  the path at compile time. Every limb of \<open>result\<close> is overwritten, so the model
  returns the result limbs.
\<close>

definition neon_montgomery_mul_4limb :: "bool \<Rightarrow> u64 list \<Rightarrow> u64 list \<Rightarrow> u64 list \<Rightarrow> u64 \<Rightarrow> u64 list" where
  "neon_montgomery_mul_4limb NEON_AVAILABLE a b modulus mu =
     (if NEON_AVAILABLE
      then neon_montgomery_reduce (neon_schoolbook_mul a b 4) modulus mu 4
      else fallback_montgomery_reduce (fallback_schoolbook_mul a b 4) modulus mu 4)"

definition neon_montgomery_mul_6limb :: "bool \<Rightarrow> u64 list \<Rightarrow> u64 list \<Rightarrow> u64 list \<Rightarrow> u64 \<Rightarrow> u64 list" where
  "neon_montgomery_mul_6limb NEON_AVAILABLE a b modulus mu =
     (if NEON_AVAILABLE
      then neon_montgomery_reduce (neon_schoolbook_mul a b 6) modulus mu 6
      else fallback_montgomery_reduce (fallback_schoolbook_mul a b 6) modulus mu 6)"

text \<open>
  Names for the loop bodies of the schoolbook multiplication and of the reduction, as
  they occur in the definitions above.
\<close>

abbreviation neon_schoolbook_step :: "u64 list \<Rightarrow> u64 list \<Rightarrow> nat \<Rightarrow> nat \<Rightarrow> u64 list \<Rightarrow> u64 list" where
  "neon_schoolbook_step a b L \<equiv>
     (\<lambda>i result.
        let (result, carry) = neon_mul_add_row (a ! i) b result i L
        in propagate_carry result carry (i + L) (2 * L))"

abbreviation fallback_schoolbook_step :: "u64 list \<Rightarrow> u64 list \<Rightarrow> nat \<Rightarrow> nat \<Rightarrow> u64 list \<Rightarrow> u64 list" where
  "fallback_schoolbook_step a b L \<equiv>
     (\<lambda>i t.
        let (t, carry) = fallback_mul_add_row (a ! i) b t i L
        in t[i + L := carry])"

abbreviation fallback_reduce_step :: "u64 list \<Rightarrow> u64 \<Rightarrow> nat \<Rightarrow> nat \<Rightarrow> u64 list \<Rightarrow> u64 list" where
  "fallback_reduce_step modulus mu L \<equiv>
     (\<lambda>i t.
        let m = t ! i * mu;
            (t, carry) = fallback_mul_add_row m modulus t i L
        in propagate_carry t carry (i + L) (2 * L))"

section \<open>Batch Montgomery multiplication (neon\_montgomery.cc, lines 325--360)\<close>

text \<open>
  The C code never checks a buffer's length, and an access beyond a buffer is undefined
  behaviour. The batch function is where the sizes of the caller's arrays matter, so its
  model returns \<open>Inl OutOfBounds\<close> in place of a result when the code would read or
  write beyond \<open>a\<close>, \<open>b\<close>, \<open>modulus\<close> or \<open>results\<close>.
\<close>

datatype error = OutOfBounds

text \<open>
  The conversion of an \<open>int\<close> to \<open>size_t\<close> (64 bits): \<open>limb_count\<close> is an \<open>int\<close>, and
  in \<open>count * limb_count * sizeof(uint64_t)\<close> it is converted to \<open>size_t\<close>, where the
  product wraps around modulo \<open>2^64\<close>.
\<close>

definition size_t_of_int :: "int \<Rightarrow> nat" where
  "size_t_of_int x = nat (x mod 2 ^ 64)"

text \<open>
  \<open>memset(buf, 0, nbytes)\<close> on a buffer of limbs, for a byte count that is a multiple
  of 8 (the only counts the code passes): it zeroes the first \<open>nbytes / 8\<close> limbs.
\<close>

definition memset_zero :: "u64 list \<Rightarrow> nat \<Rightarrow> error + u64 list" where
  "memset_zero buf nbytes =
     (if nbytes \<le> 8 * length buf
      then Inr (replicate (nbytes div 8) 0 @ drop (nbytes div 8) buf)
      else Inl OutOfBounds)"

text \<open>Writing the limbs \<open>xs\<close> through the pointer \<open>buf + off\<close>.\<close>

definition store_limbs :: "u64 list \<Rightarrow> nat \<Rightarrow> u64 list \<Rightarrow> u64 list" where
  "store_limbs buf off xs = take off buf @ xs @ drop (off + length xs) buf"

text \<open>
  \<open>neon_batch_montgomery_mul\<close>: \<open>count\<close> is a \<open>size_t\<close>, \<open>limb_count\<close> an \<open>int\<close>. The call
  \<open>neon_montgomery_mul_4limb(a + i * 4, b + i * 4, modulus, mu, results + i * 4)\<close>
  reads through the pointers \<open>a + i * 4\<close> and \<open>b + i * 4\<close> and writes four limbs
  through \<open>results + i * 4\<close>.
\<close>

definition neon_batch_montgomery_mul ::
  "bool \<Rightarrow> u64 list \<Rightarrow> u64 list \<Rightarrow> u64 list \<Rightarrow> u64 \<Rightarrow> u64 list \<Rightarrow> nat \<Rightarrow> int
   \<Rightarrow> error + u64 list" where
  "neon_batch_montgomery_mul NEON_AVAILABLE a b modulus mu results count limb_count =
     (if limb_count = 4 then
        (if count * 4 \<le> length a \<and> count * 4 \<le> length b \<and> count * 4 \<le> length results
            \<and> (count = 0 \<or> 4 \<le> length modulus)
         then Inr (fold (\<lambda>i results.
                     store_limbs results (i * 4)
                       (neon_montgomery_mul_4limb NEON_AVAILABLE
                          (drop (i * 4) a) (drop (i * 4) b) modulus mu))
                   [0..<count] results)
         else Inl OutOfBounds)
      else if limb_count = 6 then
        (if count * 6 \<le> length a \<and> count * 6 \<le> length b \<and> count * 6 \<le> length results
            \<and> (count = 0 \<or> 6 \<le> length modulus)
         then Inr (fold (\<lambda>i results.
                     store_limbs results (i * 6)
                       (neon_montgomery_mul_6limb NEON_AVAILABLE
                          (drop (i * 6) a) (drop (i * 6) b) modulus mu))
                   [0..<count] results)
         else Inl OutOfBounds)
      else memset_zero results ((count * size_t_of_int limb_count * 8) mod 2 ^ 64))"

section \<open>NTT butterfly (vdsp\_ops.cc, lines 112--156)\<close>

text \<open>
  The butterfly receives five arrays of \<open>double\<close> by pointer, and nothing in the code
  keeps the output arrays apart from the input arrays: after \<open>out_even[i]\<close> is stored,
  \<open>in_even[i]\<close> is read again from memory. The model therefore has one memory, a
  function from addresses (counted in elements) to values; a pointer is an address and
  \<open>p[i]\<close> is the memory at \<open>p + i\<close>.

  The model is polymorphic in the element type and uses only its \<open>+\<close>, \<open>-\<close> and \<open>*\<close>,
  which stand for the machine's operations on doubles; no law of arithmetic is assumed
  of them.
\<close>

type_synonym 'a memory = "nat \<Rightarrow> 'a"

text \<open>
  The vDSP routines belong to Apple's Accelerate framework. They are modelled as the
  loops that their documentation gives, with all strides 1:
  \<open>vDSP_vmulD\<close> sets \<open>C[n] = A[n] * B[n]\<close>, \<open>vDSP_vaddD\<close> sets \<open>C[n] = A[n] + B[n]\<close>, and
  \<open>vDSP_vsubD(B, A, C)\<close> sets \<open>C[n] = A[n] - B[n]\<close> (the call site: ``vDSP\_vsubD
  computes B - A, so we swap arguments'').
\<close>

definition vDSP_vmulD :: "nat \<Rightarrow> nat \<Rightarrow> nat \<Rightarrow> nat \<Rightarrow> 'a::times memory \<Rightarrow> 'a memory" where
  "vDSP_vmulD A B C N mem = fold (\<lambda>n mem. mem(C + n := mem (A + n) * mem (B + n))) [0..<N] mem"

definition vDSP_vaddD :: "nat \<Rightarrow> nat \<Rightarrow> nat \<Rightarrow> nat \<Rightarrow> 'a::plus memory \<Rightarrow> 'a memory" where
  "vDSP_vaddD A B C N mem = fold (\<lambda>n mem. mem(C + n := mem (A + n) + mem (B + n))) [0..<N] mem"

definition vDSP_vsubD :: "nat \<Rightarrow> nat \<Rightarrow> nat \<Rightarrow> nat \<Rightarrow> 'a::minus memory \<Rightarrow> 'a memory" where
  "vDSP_vsubD B A C N mem = fold (\<lambda>n mem. mem(C + n := mem (A + n) - mem (B + n))) [0..<N] mem"

text \<open>
  The scalar loop, which the source has twice: as the fallback when \<open>malloc\<close> fails
  (lines 126--130) and as the whole body on other platforms (lines 146--150). The
  second read of \<open>in_even[i]\<close> comes after the store to \<open>out_even[i]\<close>.
\<close>

definition butterfly_scalar_loop ::
  "nat \<Rightarrow> nat \<Rightarrow> nat \<Rightarrow> nat \<Rightarrow> nat \<Rightarrow> nat \<Rightarrow> 'a::{plus,minus,times} memory \<Rightarrow> 'a memory" where
  "butterfly_scalar_loop in_even in_odd twiddle_real out_even out_odd n mem =
     fold (\<lambda>i mem.
             let t = mem (twiddle_real + i) * mem (in_odd + i);
                 mem = mem(out_even + i := mem (in_even + i) + t);
                 mem = mem(out_odd + i := mem (in_even + i) - t)
             in mem)
          [0..<n] mem"

text \<open>
  \<open>vdsp_ntt_butterfly_f64\<close>. \<open>APPLE\<close> is the preprocessor symbol \<open>__APPLE__\<close>;
  \<open>malloc_temp\<close> is what \<open>malloc(n * sizeof(double))\<close> returns: \<open>None\<close> for \<open>NULL\<close>,
  otherwise the address of the block. The function returns nothing; the model returns
  the memory it leaves. \<open>free(temp)\<close> changes no value. The pointer \<open>twiddle_imag\<close> is
  never dereferenced.
\<close>

definition vdsp_ntt_butterfly_f64 ::
  "bool \<Rightarrow> nat option \<Rightarrow> nat \<Rightarrow> nat \<Rightarrow> nat \<Rightarrow> nat \<Rightarrow> nat \<Rightarrow> nat \<Rightarrow> nat
   \<Rightarrow> 'a::{plus,minus,times} memory \<Rightarrow> 'a memory" where
  "vdsp_ntt_butterfly_f64 APPLE malloc_temp in_even in_odd twiddle_real twiddle_imag
       out_even out_odd n mem =
     (if APPLE
      then (case malloc_temp of
              None \<Rightarrow> butterfly_scalar_loop in_even in_odd twiddle_real out_even out_odd n mem
            | Some temp \<Rightarrow>
                let mem = vDSP_vmulD twiddle_real in_odd temp n mem;
                    mem = vDSP_vaddD in_even temp out_even n mem;
                    mem = vDSP_vsubD temp in_even out_odd n mem
                in mem)
      else butterfly_scalar_loop in_even in_odd twiddle_real out_even out_odd n mem)"

text \<open>
  Two blocks of \<open>n\<close> elements, at \<open>p\<close> and at \<open>q\<close>, that have no element in common.
\<close>

definition disjoint_blocks :: "nat \<Rightarrow> nat \<Rightarrow> nat \<Rightarrow> bool" where
  "disjoint_blocks p q n \<longleftrightarrow> p + n \<le> q \<or> q + n \<le> p"

text \<open>
  The arithmetic of \<open>double\<close> (IEEE 754 binary64, round to nearest, ties to even) on
  the doubles whose value is an integer: \<open>Double x\<close> is the double of value \<open>x\<close>. An
  integer of magnitude below \<open>2^53\<close> is a double; a larger one is rounded to 53
  significant bits. The sum, the difference and the product of two integers are
  integers, so each operation is the exact result, rounded. Overflow to infinity (a
  magnitude of \<open>2^1024\<close> or more) is not part of this model.
\<close>

fun bit_length :: "nat \<Rightarrow> nat" where
  "bit_length n = (if n = 0 then 0 else Suc (bit_length (n div 2)))"

declare bit_length.simps [simp del]

definition round_to_double :: "int \<Rightarrow> int" where
  "round_to_double x =
     (let a = nat \<bar>x\<bar>
      in if a < 2 ^ 53 then x
         else let k = bit_length a - 53;
                  q = a div 2 ^ k;
                  r = a mod 2 ^ k;
                  q = (if 2 * r > 2 ^ k \<or> (2 * r = 2 ^ k \<and> odd q) then q + 1 else q)
              in sgn x * int (q * 2 ^ k))"

datatype double = Double (double_value: int)

instantiation double :: "{plus,minus,times}"
begin

definition plus_double :: "double \<Rightarrow> double \<Rightarrow> double" where
  "plus_double a b = Double (round_to_double (double_value a + double_value b))"

definition minus_double :: "double \<Rightarrow> double \<Rightarrow> double" where
  "minus_double a b = Double (round_to_double (double_value a - double_value b))"

definition times_double :: "double \<Rightarrow> double \<Rightarrow> double" where
  "times_double a b = Double (round_to_double (double_value a * double_value b))"

instance ..

end

section \<open>MSM bucket accumulation (blas\_ops.cc, lines 141--232; sme\_ops.cc, lines 130--138)\<close>

text \<open>
  Bucket indices are \<open>uint32_t\<close>. Coordinates are doubles, modelled by any type with the
  operations the code applies to them; \<open>0\<close> and \<open>1\<close> stand for the constants \<open>0.0\<close> and
  \<open>1.0\<close>. The arrays \<open>bucket_indices\<close>, \<open>point_coords\<close> and \<open>bucket_accum\<close> are three
  lists.

  The direct accumulation loop after the label \<open>fallback\<close> (lines 222--232). It is the
  whole function on a platform without \<open>__APPLE__\<close>, where the preprocessor removes the
  dense-matrix block, and on Apple platforms it runs for large inputs and after a failed
  allocation.
\<close>

definition blas_bucket_accumulate_fallback ::
  "u32 list \<Rightarrow> 'a::plus list \<Rightarrow> 'a list \<Rightarrow> nat \<Rightarrow> nat \<Rightarrow> nat \<Rightarrow> 'a list" where
  "blas_bucket_accumulate_fallback bucket_indices point_coords bucket_accum
       num_points num_buckets coord_size =
     fold (\<lambda>i bucket_accum.
             let bucket = unat (bucket_indices ! i)
             in if bucket < num_buckets
                then fold (\<lambda>c bucket_accum.
                             bucket_accum[bucket * coord_size + c :=
                               bucket_accum ! (bucket * coord_size + c)
                               + point_coords ! (i * coord_size + c)])
                          [0..<coord_size] bucket_accum
                else bucket_accum)
          [0..<num_points] bucket_accum"

text \<open>
  The indicator matrix of the dense-matrix block (lines 154--165): \<open>calloc\<close> gives
  \<open>num_points * num_buckets\<close> zeros, and the loop sets entry \<open>(i, bucket_indices[i])\<close> to
  \<open>1.0\<close> when the index is below \<open>num_buckets\<close>.
\<close>

definition fill_indicator :: "u32 list \<Rightarrow> nat \<Rightarrow> nat \<Rightarrow> 'a::{zero,one} list" where
  "fill_indicator bucket_indices num_points num_buckets =
     fold (\<lambda>i indicator.
             let bucket = unat (bucket_indices ! i)
             in if bucket < num_buckets
                then indicator[i * num_buckets + bucket := 1]
                else indicator)
          [0..<num_points] (replicate (num_points * num_buckets) 0)"

text \<open>
  \<open>cblas_dgemv\<close> belongs to Apple's Accelerate framework. It is modelled as BLAS defines
  the call \<open>cblas_dgemv(CblasRowMajor, CblasTrans, m, n, alpha, A, lda, x, 1, beta, y, 1)\<close>:
  \<open>y := alpha * A\<^sup>T * x + beta * y\<close>, for the \<open>m\<close> by \<open>n\<close> matrix \<open>A\<close> stored by rows
  of length \<open>lda\<close>. The order in which the library adds the \<open>m\<close> products is not
  documented; the model adds them by increasing row.
\<close>

definition cblas_dgemv_trans ::
  "nat \<Rightarrow> nat \<Rightarrow> 'a::{zero,plus,times} \<Rightarrow> 'a list \<Rightarrow> nat \<Rightarrow> 'a list \<Rightarrow> 'a \<Rightarrow> 'a list \<Rightarrow> 'a list" where
  "cblas_dgemv_trans m n alpha A lda x beta y =
     map (\<lambda>j. alpha * foldl (+) 0 (map (\<lambda>i. A ! (i * lda + j) * x ! i) [0..<m]) + beta * y ! j)
         [0..<n]"

text \<open>
  One round of the loop over the coordinates (lines 184--211), after both allocations
  succeeded: column \<open>c\<close> of \<open>point_coords\<close> is copied out, \<open>bucket_col\<close> is zeroed,
  \<open>cblas_dgemv\<close> computes the product, and the product is added to column \<open>c\<close> of
  \<open>bucket_accum\<close>.
\<close>

definition dense_coordinate ::
  "'a::{zero,one,plus,times} list \<Rightarrow> 'a list \<Rightarrow> nat \<Rightarrow> nat \<Rightarrow> nat \<Rightarrow> nat \<Rightarrow> 'a list \<Rightarrow> 'a list" where
  "dense_coordinate indicator point_coords num_points num_buckets coord_size c bucket_accum =
     (let point_col = map (\<lambda>i. point_coords ! (i * coord_size + c)) [0..<num_points];
          bucket_col = replicate num_buckets 0;
          bucket_col = cblas_dgemv_trans num_points num_buckets 1 indicator num_buckets
                         point_col 0 bucket_col
      in fold (\<lambda>b bucket_accum.
                 bucket_accum[b * coord_size + c :=
                   bucket_accum ! (b * coord_size + c) + bucket_col ! b])
              [0..<num_buckets] bucket_accum)"

text \<open>
  The loop over the coordinates (lines 172--215), run on the list of the coordinates
  still to do. \<open>malloc_point_col c\<close> and \<open>malloc_bucket_col c\<close> tell whether the two
  allocations of round \<open>c\<close> succeed. The result is the accumulator and whether the loop
  ran to its end; \<open>False\<close> is the \<open>goto fallback\<close> of line 181, which leaves in
  \<open>bucket_accum\<close> what the earlier rounds added.
\<close>

fun dense_loop ::
  "(nat \<Rightarrow> bool) \<Rightarrow> (nat \<Rightarrow> bool) \<Rightarrow> 'a::{zero,one,plus,times} list \<Rightarrow> 'a list
   \<Rightarrow> nat \<Rightarrow> nat \<Rightarrow> nat \<Rightarrow> nat list \<Rightarrow> 'a list \<Rightarrow> 'a list \<times> bool" where
  "dense_loop malloc_point_col malloc_bucket_col indicator point_coords
       num_points num_buckets coord_size [] bucket_accum = (bucket_accum, True)"
| "dense_loop malloc_point_col malloc_bucket_col indicator point_coords
       num_points num_buckets coord_size (c # cs) bucket_accum =
     (if \<not> malloc_point_col c \<or> \<not> malloc_bucket_col c
      then (bucket_accum, False)
      else dense_loop malloc_point_col malloc_bucket_col indicator point_coords
             num_points num_buckets coord_size cs
             (dense_coordinate indicator point_coords num_points num_buckets coord_size c
                bucket_accum))"

text \<open>
  \<open>blas_bucket_accumulate\<close> (lines 141--232). \<open>APPLE\<close> is the preprocessor symbol
  \<open>__APPLE__\<close>; \<open>calloc_indicator\<close> tells whether the allocation of the indicator matrix
  succeeds. Without \<open>__APPLE__\<close> the body of the \<open>if\<close> is empty and control falls
  through to the label.
\<close>

definition blas_bucket_accumulate ::
  "bool \<Rightarrow> bool \<Rightarrow> (nat \<Rightarrow> bool) \<Rightarrow> (nat \<Rightarrow> bool)
   \<Rightarrow> u32 list \<Rightarrow> 'a::{zero,one,plus,times} list \<Rightarrow> 'a list \<Rightarrow> nat \<Rightarrow> nat \<Rightarrow> nat \<Rightarrow> 'a list" where
  "blas_bucket_accumulate APPLE calloc_indicator malloc_point_col malloc_bucket_col
       bucket_indices point_coords bucket_accum num_points num_buckets coord_size =
     (if num_buckets \<le> 1024 \<and> num_points \<le> 4096 \<and> APPLE
      then (if \<not> calloc_indicator
            then blas_bucket_accumulate_fallback bucket_indices point_coords bucket_accum
                   num_points num_buckets coord_size
            else let indicator = fill_indicator bucket_indices num_points num_buckets;
                     (bucket_accum, finished) =
                       dense_loop malloc_point_col malloc_bucket_col indicator point_coords
                         num_points num_buckets coord_size [0..<coord_size] bucket_accum
                 in if finished
                    then bucket_accum
                    else blas_bucket_accumulate_fallback bucket_indices point_coords bucket_accum
                           num_points num_buckets coord_size)
      else blas_bucket_accumulate_fallback bucket_indices point_coords bucket_accum
             num_points num_buckets coord_size)"

text \<open>
  \<open>sme_bucket_outer_product\<close>, the branch compiled without \<open>__APPLE__\<close> (lines
  130--138). \<open>1ULL << window_size\<close> is defined in C for \<open>0 \<le> window_size < 64\<close> only.
  The function returns \<open>false\<close>; the model returns the buckets with it.
\<close>

definition sme_bucket_outer_product ::
  "u64 list \<Rightarrow> 'a::plus list \<Rightarrow> 'a list \<Rightarrow> nat \<Rightarrow> nat \<Rightarrow> nat \<Rightarrow> 'a list \<times> bool" where
  "sme_bucket_outer_product scalars points buckets num_scalars num_buckets window_size =
     (let bucket_mask = push_bit window_size 1 - 1 :: u64
      in (fold (\<lambda>i buckets.
                  let bucket_idx = scalars ! i AND bucket_mask
                  in if bucket_idx > 0 \<and> unat bucket_idx \<le> num_buckets
                     then buckets[unat (bucket_idx - 1) :=
                            buckets ! unat (bucket_idx - 1) + points ! i]
                     else buckets)
               [0..<num_scalars] buckets,
          False))"


text \<open>
  The points that touch position \<open>p\<close> of the accumulator array, in the order of the
  loop: point \<open>i\<close> touches the \<open>coord_size\<close> positions of the slot its bucket index
  names, if that index is below \<open>num_buckets\<close>.
\<close>

definition hits :: "u32 list \<Rightarrow> nat \<Rightarrow> nat \<Rightarrow> nat \<Rightarrow> nat \<Rightarrow> nat list" where
  "hits bi n nb cs p =
     filter (\<lambda>i. unat (bi ! i) < nb \<and> unat (bi ! i) * cs \<le> p \<and> p < unat (bi ! i) * cs + cs)
            [0..<n]"


section \<open>Limb values\<close>

lemma limbs_val_Nil [simp]: "limbs_val [] = 0"
  by (simp add: limbs_val_def)

lemma limbs_val_Cons [simp]: "limbs_val (w # ws) = unat w + 2 ^ 64 * limbs_val ws"
  by (simp add: limbs_val_def)

lemma limbs_val_append:
  "limbs_val (xs @ ys) = limbs_val xs + 2 ^ (64 * length xs) * limbs_val ys"
  by (induction xs) (simp_all add: algebra_simps power_add)

lemma unat_lt_2p64: "unat (w :: u64) < 2 ^ 64"
  using unsigned_less [of w] by simp

lemma limbs_val_bound: "limbs_val xs < 2 ^ (64 * length xs)"
proof (induction xs)
  case Nil
  show ?case by simp
next
  case (Cons w ws)
  have "limbs_val ws + 1 \<le> 2 ^ (64 * length ws)"
    using Cons.IH by simp
  then have "2 ^ 64 * (limbs_val ws + 1) \<le> (2::nat) ^ 64 * 2 ^ (64 * length ws)"
    by (rule mult_le_mono2)
  then show ?case
    using unat_lt_2p64 [of w] by (simp add: power_add)
qed

lemma limbs_val_take_Suc:
  "j < length xs \<Longrightarrow>
   limbs_val (take (Suc j) xs) = limbs_val (take j xs) + 2 ^ (64 * j) * unat (xs ! j)"
  by (simp add: take_Suc_conv_app_nth limbs_val_append)

section \<open>From 128-bit words to numbers\<close>

lemma unat_ucast_up: "unat (ucast (x :: u64) :: u128) = unat x"
proof -
  have "unat x < 2 ^ 128"
    using unat_lt_2p64 [of x] by simp
  then show ?thesis
    by (simp add: unsigned_ucast_eq take_bit_nat_eq_self)
qed

lemma unat_lo: "unat (ucast (s :: u128) :: u64) = unat s mod 2 ^ 64"
  by (simp add: unsigned_ucast_eq take_bit_eq_mod)

lemma unat_hi: "unat (ucast (drop_bit 64 (s :: u128)) :: u64) = unat s div 2 ^ 64"
proof -
  have "unat s < 2 ^ 128"
    using unsigned_less [of s] by simp
  then have "unat s div 2 ^ 64 < 2 ^ 64"
    by (simp add: less_mult_imp_div_less)
  then have B: "take_bit 64 (drop_bit 64 (unat s)) = unat s div 2 ^ 64"
    by (simp add: drop_bit_eq_div take_bit_nat_eq_self)
  have "unat (ucast (drop_bit n s) :: u64) = take_bit 64 (drop_bit n (unat s))" for n
    by (simp add: unsigned_ucast_eq unat_drop_bit_eq)
  from this [of 64] B show ?thesis
    by (rule trans)
qed

lemma unat_lo_hi:
  "unat (ucast (s :: u128) :: u64) + 2 ^ 64 * unat (ucast (drop_bit 64 s) :: u64) = unat s"
  by (simp only: unat_hi) (simp only: unat_lo mod_mult_div_eq)

lemma unat_add3:
  "unat ((ucast (x :: u64) :: u128) + ucast (y :: u64) + ucast (c :: u64))
   = unat x + unat y + unat c"
proof -
  have "unat x + unat y + unat c < 2 ^ 128"
    using unat_lt_2p64 [of x] unat_lt_2p64 [of y] unat_lt_2p64 [of c] by simp
  then show ?thesis
    by (simp add: unat_word_ariths unat_ucast_up)
qed

lemma drop_bit_64_eq_0_iff: "drop_bit 64 (d :: u128) = 0 \<longleftrightarrow> unat d < 2 ^ 64"
proof -
  have "drop_bit 64 d = 0 \<longleftrightarrow> unat (drop_bit 64 d) = 0"
    by (simp only: unat_0_iff)
  also have "\<dots> \<longleftrightarrow> unat d div 2 ^ 64 = 0"
    using unat_drop_bit_eq [of 64 d] by (simp add: drop_bit_eq_div)
  also have "\<dots> \<longleftrightarrow> unat d < 2 ^ 64"
    by (simp only: div_eq_0_iff) simp
  finally show ?thesis .
qed

lemma sub_step:
  fixes x y bw :: u64
  assumes bw: "unat bw \<le> 1"
  defines "d \<equiv> (ucast x :: u128) - ucast y - ucast bw"
  shows "unat (ucast d :: u64) + unat y + unat bw
         = unat x + 2 ^ 64 * unat (if drop_bit 64 d \<noteq> 0 then 1 else 0 :: u64)"
proof -
  define X where "X = unat x"
  define Y where "Y = unat y + unat bw"
  have X: "X < 2 ^ 64" and Y: "Y \<le> 2 ^ 64"
    using unat_lt_2p64 [of x] unat_lt_2p64 [of y] bw by (simp_all add: X_def Y_def)
  define u where "u = (ucast y :: u128) + ucast bw"
  have uu: "unat u = Y"
    using unat_add3 [of y bw 0] by (simp add: u_def Y_def)
  have ux: "unat (ucast x :: u128) = X"
    by (simp add: unat_ucast_up X_def)
  have d: "d = ucast x - u"
    by (simp add: d_def u_def)
  have ud: "unat d = (if Y \<le> X then X - Y else X + 2 ^ 128 - Y)"
    unfolding d by (simp add: unat_sub_if_size ux uu word_size)
  show ?thesis
  proof (cases "Y \<le> X")
    case True
    then have 1: "unat d = X - Y" by (simp add: ud)
    then have "unat d < 2 ^ 64" using X by simp
    then have "drop_bit 64 d = 0" using drop_bit_64_eq_0_iff [of d] by blast
    moreover have "unat (ucast d :: u64) = X - Y"
      using X by (simp add: unat_lo 1)
    ultimately show ?thesis
      using True by (simp add: X_def Y_def)
  next
    case False
    then have 1: "unat d = X + 2 ^ 128 - Y" by (simp add: ud)
    then have "\<not> unat d < 2 ^ 64" using X Y by simp
    then have nz: "drop_bit 64 d \<noteq> 0" using drop_bit_64_eq_0_iff [of d] by blast
    have "X + 2 ^ 128 - Y = (X + 2 ^ 64 - Y) + 2 ^ 64 * (2 ^ 64 - 1)"
      using False Y by simp
    then have "(X + 2 ^ 128 - Y) mod 2 ^ 64 = (X + 2 ^ 64 - Y) mod 2 ^ 64"
      by (simp only: mod_mult_self2)
    also have "\<dots> = X + 2 ^ 64 - Y"
      using False Y by simp
    finally have "unat (ucast d :: u64) = X + 2 ^ 64 - Y"
      by (simp only: unat_lo 1)
    then show ?thesis
      using nz False Y by (simp add: X_def Y_def)
  qed
qed

section \<open>Carry and borrow chains\<close>

lemma drop_Suc_update_eq:
  assumes "drop n r0 = drop n result"
  shows "drop (Suc n) (r0[n := w]) = drop (Suc n) result"
proof -
  have "drop (Suc n) (r0[n := w]) = drop (Suc n) r0"
    by simp
  also have "\<dots> = tl (drop n r0)"
    by (simp add: drop_Suc tl_drop)
  also have "\<dots> = tl (drop n result)"
    using assms by simp
  also have "\<dots> = drop (Suc n) result"
    by (simp add: drop_Suc tl_drop)
  finally show ?thesis .
qed

lemma add_with_carry_Suc:
  "add_with_carry a b result (Suc n) =
     (case add_with_carry a b result n of (r0, c0) \<Rightarrow>
        let sum = (ucast (a ! n) :: u128) + ucast (b ! n) + ucast c0
        in (r0[n := ucast sum], ucast (drop_bit 64 sum)))"
  by (simp add: add_with_carry_def)

lemma add_with_carry_inv:
  assumes "n \<le> length a" "n \<le> length b" "n \<le> length result"
    and "add_with_carry a b result n = (r, c)"
  shows "length r = length result \<and> unat c \<le> 1 \<and> drop n r = drop n result \<and>
         limbs_val (take n r) + 2 ^ (64 * n) * unat c
         = limbs_val (take n a) + limbs_val (take n b)"
  using assms
proof (induction n arbitrary: r c)
  case 0
  then show ?case by (simp add: add_with_carry_def)
next
  case (Suc n)
  obtain r0 c0 where f0: "add_with_carry a b result n = (r0, c0)"
    by (cases "add_with_carry a b result n")
  from Suc.prems have n: "n < length a" "n < length b" "n < length result" by simp_all
  have ih: "length r0 = length result \<and> unat c0 \<le> 1 \<and> drop n r0 = drop n result \<and>
         limbs_val (take n r0) + 2 ^ (64 * n) * unat c0
         = limbs_val (take n a) + limbs_val (take n b)"
    using Suc.IH [of r0 c0] n f0 by simp
  define s where "s = unat (a ! n) + unat (b ! n) + unat c0"
  define w where "w = (ucast (a ! n) :: u128) + ucast (b ! n) + ucast c0"
  have rc: "r = r0[n := ucast w]" "c = ucast (drop_bit 64 w)"
    using Suc.prems(4) f0 by (simp_all add: add_with_carry_Suc Let_def w_def)
  have rn: "r ! n = ucast w"
    using ih n by (simp add: rc)
  have us: "unat (r ! n) + 2 ^ 64 * unat c = s"
    unfolding rn rc(2) unat_lo_hi by (simp add: w_def unat_add3 s_def)
  have sb: "s < 2 * 2 ^ 64"
    using unat_lt_2p64 [of "a ! n"] unat_lt_2p64 [of "b ! n"] ih by (simp add: s_def)
  have len: "length r = length result"
    using ih by (simp add: rc)
  have tk: "take (Suc n) r = take n r0 @ [r ! n]"
    using ih n by (simp add: rc take_Suc_conv_app_nth)
  have dr: "drop (Suc n) r = drop (Suc n) result"
    unfolding rc(1) using ih by (intro drop_Suc_update_eq) simp
  have "limbs_val (take (Suc n) r) = limbs_val (take n r0) + 2 ^ (64 * n) * unat (r ! n)"
    using ih n by (simp add: tk limbs_val_append)
  then have "limbs_val (take (Suc n) r) + 2 ^ (64 * Suc n) * unat c
      = limbs_val (take n r0) + 2 ^ (64 * n) * (unat (r ! n) + 2 ^ 64 * unat c)"
    by (simp add: algebra_simps power_add)
  also have "\<dots> = limbs_val (take n r0) + 2 ^ (64 * n) * s"
    by (simp only: us)
  also have "\<dots> = limbs_val (take (Suc n) a) + limbs_val (take (Suc n) b)"
    using ih n by (simp add: limbs_val_take_Suc s_def algebra_simps)
  finally have v: "limbs_val (take (Suc n) r) + 2 ^ (64 * Suc n) * unat c
      = limbs_val (take (Suc n) a) + limbs_val (take (Suc n) b)" .
  have "unat c \<le> 1"
    using sb us by simp
  with len dr v show ?case by simp
qed

lemma sub_with_borrow_Suc:
  "sub_with_borrow a b result (Suc n) =
     (case sub_with_borrow a b result n of (r0, c0) \<Rightarrow>
        let diff = (ucast (a ! n) :: u128) - ucast (b ! n) - ucast c0
        in (r0[n := ucast diff], if drop_bit 64 diff \<noteq> 0 then 1 else 0))"
  by (simp add: sub_with_borrow_def)

lemma sub_with_borrow_inv:
  assumes "n \<le> length a" "n \<le> length b" "n \<le> length result"
    and "sub_with_borrow a b result n = (r, c)"
  shows "length r = length result \<and> unat c \<le> 1 \<and> drop n r = drop n result \<and>
         limbs_val (take n r) + limbs_val (take n b)
         = limbs_val (take n a) + 2 ^ (64 * n) * unat c"
  using assms
proof (induction n arbitrary: r c)
  case 0
  then show ?case by (simp add: sub_with_borrow_def)
next
  case (Suc n)
  obtain r0 c0 where f0: "sub_with_borrow a b result n = (r0, c0)"
    by (cases "sub_with_borrow a b result n")
  from Suc.prems have n: "n < length a" "n < length b" "n < length result" by simp_all
  have ih: "length r0 = length result \<and> unat c0 \<le> 1 \<and> drop n r0 = drop n result \<and>
         limbs_val (take n r0) + limbs_val (take n b)
         = limbs_val (take n a) + 2 ^ (64 * n) * unat c0"
    using Suc.IH [of r0 c0] n f0 by simp
  define d where "d = (ucast (a ! n) :: u128) - ucast (b ! n) - ucast c0"
  have rc: "r = r0[n := ucast d]" "c = (if drop_bit 64 d \<noteq> 0 then 1 else 0)"
    using Suc.prems(4) f0 by (simp_all add: sub_with_borrow_Suc Let_def d_def)
  have rn: "r ! n = ucast d"
    using ih n by (simp add: rc)
  have us: "unat (r ! n) + unat (b ! n) + unat c0 = unat (a ! n) + 2 ^ 64 * unat c"
    unfolding rn rc(2) d_def using ih by (intro sub_step) simp
  have len: "length r = length result"
    using ih by (simp add: rc)
  have tk: "take (Suc n) r = take n r0 @ [r ! n]"
    using ih n by (simp add: rc take_Suc_conv_app_nth)
  have dr: "drop (Suc n) r = drop (Suc n) result"
    unfolding rc(1) using ih by (intro drop_Suc_update_eq) simp
  have "limbs_val (take (Suc n) r) = limbs_val (take n r0) + 2 ^ (64 * n) * unat (r ! n)"
    using ih n by (simp add: tk limbs_val_append)
  then have "limbs_val (take (Suc n) r) + limbs_val (take (Suc n) b)
      = (limbs_val (take n r0) + limbs_val (take n b))
        + 2 ^ (64 * n) * (unat (r ! n) + unat (b ! n))"
    using n by (simp add: limbs_val_take_Suc algebra_simps)
  also have "\<dots> = limbs_val (take n a)
        + 2 ^ (64 * n) * (unat (r ! n) + unat (b ! n) + unat c0)"
    using ih by (simp add: algebra_simps)
  also have "\<dots> = limbs_val (take n a) + 2 ^ (64 * n) * (unat (a ! n) + 2 ^ 64 * unat c)"
    by (simp only: us)
  also have "\<dots> = limbs_val (take (Suc n) a) + 2 ^ (64 * Suc n) * unat c"
    using n by (simp add: limbs_val_take_Suc algebra_simps power_add)
  finally have v: "limbs_val (take (Suc n) r) + limbs_val (take (Suc n) b)
      = limbs_val (take (Suc n) a) + 2 ^ (64 * Suc n) * unat c" .
  have "unat c \<le> 1"
    by (simp add: rc)
  with len dr v show ?case by simp
qed

lemma unat_le_1_cases: "unat (c :: u64) \<le> 1 \<Longrightarrow> c = 0 \<or> c = 1"
proof -
  assume "unat c \<le> 1"
  then have "unat c = 0 \<or> unat c = 1" by linarith
  then show ?thesis
    by (metis unat_0_iff unat_1 word_unat_eq_iff)
qed

text \<open>
  Claim C3. For limb sequences \<open>a\<close>, \<open>b\<close> of \<open>L\<close> limbs (any \<open>L\<close>, so also the lengths 4
  and 6 in use) \<open>add_with_carry\<close> returns a result and a carry in \<open>{0, 1}\<close> with
  \<open>carry * 2^(64 L) + result = a + b\<close>, and \<open>sub_with_borrow\<close> returns a result and a
  borrow in \<open>{0, 1}\<close> with \<open>result = a - b + borrow * 2^(64 L)\<close>, the borrow being 1
  exactly when \<open>a < b\<close>; all values are read as unsigned integers. There is no
  restriction on the limbs, so all-ones limbs are covered.
\<close>

theorem carry_chain_totality:
  assumes "length a = L" and "length b = L" and "length result = L"
  shows "(case add_with_carry a b result L of (r, carry) \<Rightarrow>
            length r = L \<and> (carry = 0 \<or> carry = 1) \<and>
            unat carry * 2 ^ (64 * L) + limbs_val r = limbs_val a + limbs_val b)
       \<and> (case sub_with_borrow a b result L of (r, borrow) \<Rightarrow>
            length r = L \<and> (borrow = 0 \<or> borrow = 1) \<and>
            int (limbs_val r)
              = int (limbs_val a) - int (limbs_val b) + int (unat borrow) * 2 ^ (64 * L) \<and>
            (borrow = 1 \<longleftrightarrow> limbs_val a < limbs_val b))"
proof -
  obtain r c where add: "add_with_carry a b result L = (r, c)"
    by (cases "add_with_carry a b result L")
  obtain r' c' where sub: "sub_with_borrow a b result L = (r', c')"
    by (cases "sub_with_borrow a b result L")
  have A0: "length r = length result \<and> unat c \<le> 1 \<and> drop L r = drop L result \<and>
         limbs_val (take L r) + 2 ^ (64 * L) * unat c
         = limbs_val (take L a) + limbs_val (take L b)"
    using assms add by (intro add_with_carry_inv) simp_all
  have A: "length r = L" "unat c \<le> 1"
    using A0 assms by simp_all
  have A3: "limbs_val r + 2 ^ (64 * L) * unat c = limbs_val a + limbs_val b"
    using A0 A(1) assms by simp
  have S0: "length r' = length result \<and> unat c' \<le> 1 \<and> drop L r' = drop L result \<and>
         limbs_val (take L r') + limbs_val (take L b)
         = limbs_val (take L a) + 2 ^ (64 * L) * unat c'"
    using assms sub by (intro sub_with_borrow_inv) simp_all
  have S: "length r' = L" "unat c' \<le> 1"
    using S0 assms by simp_all
  have S3: "limbs_val r' + limbs_val b = limbs_val a + 2 ^ (64 * L) * unat c'"
    using S0 S(1) assms by simp
  have c: "c = 0 \<or> c = 1" and c': "c' = 0 \<or> c' = 1"
    using A(2) S(2) by (simp_all add: unat_le_1_cases)
  have r'b: "limbs_val r' < 2 ^ (64 * L)"
    using limbs_val_bound [of r'] S(1) by simp
  have "int (limbs_val r') + int (limbs_val b)
        = int (limbs_val a) + 2 ^ (64 * L) * int (unat c')"
    using arg_cong [OF S3, of int] by simp
  then have eq: "int (limbs_val r')
        = int (limbs_val a) - int (limbs_val b) + int (unat c') * 2 ^ (64 * L)"
    by (simp add: algebra_simps)
  have iff: "c' = 1 \<longleftrightarrow> limbs_val a < limbs_val b"
  proof (cases "c' = 0")
    case True
    then show ?thesis using S3 by simp
  next
    case False
    with c' have "c' = 1" by simp
    then show ?thesis using S3 r'b by simp
  qed
  show ?thesis
    using A(1) A3 S(1) c c' eq iff by (simp add: add sub algebra_simps)
qed

theorem carry_chain_totality_witness:
  "(case add_with_carry
           [0xFFFFFFFFFFFFFFFF, 0xFFFFFFFFFFFFFFFF, 0xFFFFFFFFFFFFFFFF, 0xFFFFFFFFFFFFFFFF]
           [0xFFFFFFFFFFFFFFFF, 0xFFFFFFFFFFFFFFFF, 0xFFFFFFFFFFFFFFFF, 0xFFFFFFFFFFFFFFFF]
           [0, 0, 0, 0] 4 of
      (r, carry) \<Rightarrow>
        length r = 4 \<and> (carry = 0 \<or> carry = 1) \<and>
        unat carry * 2 ^ (64 * 4) + limbs_val r
          = limbs_val [0xFFFFFFFFFFFFFFFF, 0xFFFFFFFFFFFFFFFF, 0xFFFFFFFFFFFFFFFF, 0xFFFFFFFFFFFFFFFF]
            + limbs_val [0xFFFFFFFFFFFFFFFF, 0xFFFFFFFFFFFFFFFF, 0xFFFFFFFFFFFFFFFF, 0xFFFFFFFFFFFFFFFF])
   \<and> (case sub_with_borrow
           [0xFFFFFFFFFFFFFFFF, 0xFFFFFFFFFFFFFFFF, 0xFFFFFFFFFFFFFFFF, 0xFFFFFFFFFFFFFFFF]
           [0xFFFFFFFFFFFFFFFF, 0xFFFFFFFFFFFFFFFF, 0xFFFFFFFFFFFFFFFF, 0xFFFFFFFFFFFFFFFF]
           [0, 0, 0, 0] 4 of
      (r, borrow) \<Rightarrow>
        length r = 4 \<and> (borrow = 0 \<or> borrow = 1) \<and>
        int (limbs_val r)
          = int (limbs_val [0xFFFFFFFFFFFFFFFF, 0xFFFFFFFFFFFFFFFF, 0xFFFFFFFFFFFFFFFF, 0xFFFFFFFFFFFFFFFF])
            - int (limbs_val [0xFFFFFFFFFFFFFFFF, 0xFFFFFFFFFFFFFFFF, 0xFFFFFFFFFFFFFFFF, 0xFFFFFFFFFFFFFFFF])
            + int (unat borrow) * 2 ^ (64 * 4) \<and>
        (borrow = 1 \<longleftrightarrow>
           limbs_val [0xFFFFFFFFFFFFFFFF, 0xFFFFFFFFFFFFFFFF, 0xFFFFFFFFFFFFFFFF, 0xFFFFFFFFFFFFFFFF]
           < limbs_val [0xFFFFFFFFFFFFFFFF, 0xFFFFFFFFFFFFFFFF, 0xFFFFFFFFFFFFFFFF, 0xFFFFFFFFFFFFFFFF]))"
  by (rule carry_chain_totality) simp_all
section \<open>Correctness of Montgomery multiplication\<close>

subsection \<open>Rows of the multiplication\<close>

lemma limbs_val_update:
  "k < length t \<Longrightarrow>
   limbs_val (t[k := w]) + 2 ^ (64 * k) * unat (t ! k) = limbs_val t + 2 ^ (64 * k) * unat w"
proof (induction t arbitrary: k)
  case Nil
  then show ?case by simp
next
  case (Cons x xs)
  show ?case
  proof (cases k)
    case 0
    then show ?thesis by simp
  next
    case (Suc k')
    with Cons.prems have "k' < length xs" by simp
    from Cons.IH [OF this]
    have "2 ^ 64 * (limbs_val (xs[k' := w]) + 2 ^ (64 * k') * unat (xs ! k'))
        = 2 ^ 64 * (limbs_val xs + 2 ^ (64 * k') * unat w)"
      by simp
    then show ?thesis
      using Suc by (simp add: algebra_simps power_add)
  qed
qed

lemma unat_mul_ucast:
  "unat ((ucast (x :: u64) :: u128) * ucast (y :: u64)) = unat x * unat y"
proof -
  have "unat x * unat y < 2 ^ 64 * 2 ^ 64"
    using unat_lt_2p64 [of x] unat_lt_2p64 [of y] by (intro mult_strict_mono) simp_all
  then have "unat x * unat y < 2 ^ 128"
    by simp
  then show ?thesis
    by (simp add: unat_word_ariths unat_ucast_up)
qed

lemma mul_add_bound:
  assumes "x < 2 ^ 64" "y < 2 ^ 64" "t < 2 ^ 64" "c < (2::nat) ^ 64"
  shows "x * y + t + c < 2 ^ 128"
proof -
  have "x * y \<le> (2 ^ 64 - 1) * (2 ^ 64 - 1)"
    using assms by (intro mult_mono) simp_all
  then show ?thesis
    using assms by simp
qed

text \<open>One step of the fallback's inner loop, as numbers.\<close>

lemma fallback_step:
  fixes x y tk c :: u64
  defines "p \<equiv> (ucast x :: u128) * ucast y + ucast tk + ucast c"
  shows "unat (ucast p :: u64) + 2 ^ 64 * unat (ucast (drop_bit 64 p) :: u64)
         = unat x * unat y + unat tk + unat c"
proof -
  have "unat x * unat y + unat tk + unat c < 2 ^ 128"
    by (intro mul_add_bound unat_lt_2p64)
  then have "unat p = unat x * unat y + unat tk + unat c"
    by (simp add: p_def unat_word_ariths unat_ucast_up unat_mul_ucast)
  then show ?thesis
    by (simp only: unat_lo_hi)
qed

text \<open>One step of the NEON path's inner loop: the 64-bit sum of the two high parts does not wrap.\<close>

lemma neon_step:
  fixes x y tk c :: u64
  defines "lo \<equiv> fst (mul64_neon x y)" and "hi \<equiv> snd (mul64_neon x y)"
  defines "s \<equiv> (ucast tk :: u128) + ucast lo + ucast c"
  shows "unat (ucast s :: u64) + 2 ^ 64 * unat (hi + ucast (drop_bit 64 s))
         = unat x * unat y + unat tk + unat c"
proof -
  define sh where "sh = (ucast (drop_bit 64 s) :: u64)"
  have m: "unat lo + 2 ^ 64 * unat hi = unat x * unat y"
    unfolding lo_def hi_def mul64_neon_def Let_def fst_conv snd_conv
    by (simp only: unat_lo_hi unat_mul_ucast)
  have s: "unat (ucast s :: u64) + 2 ^ 64 * unat sh = unat tk + unat lo + unat c"
    unfolding sh_def by (simp only: unat_lo_hi) (simp only: s_def unat_add3)
  have "unat x * unat y + unat tk + unat c < 2 ^ 128"
    by (intro mul_add_bound unat_lt_2p64)
  then have "unat (ucast s :: u64) + 2 ^ 64 * (unat hi + unat sh) < 2 ^ 64 * 2 ^ 64"
    using m s by (simp add: algebra_simps)
  then have "2 ^ 64 * (unat hi + unat sh) < 2 ^ 64 * (2::nat) ^ 64"
    by linarith
  then have "unat hi + unat sh < 2 ^ 64"
    by simp
  then have "unat (hi + sh) = unat hi + unat sh"
    by (simp add: unat_word_ariths)
  then show ?thesis
    using m s by (simp add: sh_def algebra_simps)
qed

lemma lo_hi_unique:
  fixes w1 w2 c1 c2 :: u64
  assumes "unat w1 + 2 ^ 64 * unat c1 = unat w2 + 2 ^ 64 * unat c2"
  shows "w1 = w2 \<and> c1 = c2"
proof -
  have "(unat w1 + 2 ^ 64 * unat c1) mod 2 ^ 64 = (unat w2 + 2 ^ 64 * unat c2) mod 2 ^ 64"
    using assms by (rule arg_cong)
  then have "unat w1 mod 2 ^ 64 = unat w2 mod 2 ^ 64"
    by (simp only: mod_mult_self2)
  then have w: "unat w1 = unat w2"
    using unat_lt_2p64 [of w1] unat_lt_2p64 [of w2] by (simp only: mod_less)
  then have "unat c1 = unat c2"
    using assms by simp
  with w show ?thesis
    by (simp add: word_unat_eq_iff)
qed

lemma neon_mul_add_row_eq:
  "neon_mul_add_row x ys t i n = fallback_mul_add_row x ys t i n"
proof -
  have "(\<lambda>j (t :: u64 list, carry :: u64).
             let (lo, hi) = mul64_neon x (ys ! j);
                 sum = (ucast (t ! (i + j)) :: u128) + ucast lo + ucast carry
             in (t[i + j := ucast sum], hi + ucast (drop_bit 64 sum)))
      = (\<lambda>j (t, carry).
             let product = (ucast x :: u128) * ucast (ys ! j) + ucast (t ! (i + j)) + ucast carry
             in (t[i + j := ucast product], ucast (drop_bit 64 product)))"
  proof (intro ext, clarify)
    fix j and t :: "u64 list" and carry :: u64
    obtain lo hi where m: "mul64_neon x (ys ! j) = (lo, hi)"
      by (cases "mul64_neon x (ys ! j)")
    define s where "s = (ucast (t ! (i + j)) :: u128) + ucast lo + ucast carry"
    define p where "p = (ucast x :: u128) * ucast (ys ! j) + ucast (t ! (i + j)) + ucast carry"
    have "unat (ucast s :: u64) + 2 ^ 64 * unat (hi + ucast (drop_bit 64 s))
        = unat x * unat (ys ! j) + unat (t ! (i + j)) + unat carry"
      using neon_step [of "t ! (i + j)" x "ys ! j" carry] by (simp add: m s_def)
    also have "\<dots> = unat (ucast p :: u64) + 2 ^ 64 * unat (ucast (drop_bit 64 p) :: u64)"
      using fallback_step [of x "ys ! j" "t ! (i + j)" carry] by (simp add: p_def)
    finally have "(ucast s :: u64) = ucast p \<and> hi + ucast (drop_bit 64 s) = ucast (drop_bit 64 p)"
      by (rule lo_hi_unique)
    then show "(let (lo, hi) = mul64_neon x (ys ! j);
                 sum = (ucast (t ! (i + j)) :: u128) + ucast lo + ucast carry
             in (t[i + j := ucast sum], hi + ucast (drop_bit 64 sum)))
        = (let product = (ucast x :: u128) * ucast (ys ! j) + ucast (t ! (i + j)) + ucast carry
             in (t[i + j := ucast product], ucast (drop_bit 64 product)))"
      unfolding m Let_def prod.case s_def [symmetric] p_def [symmetric] by simp
  qed
  then show ?thesis
    unfolding neon_mul_add_row_def fallback_mul_add_row_def by simp
qed

lemma fallback_mul_add_row_Suc:
  "fallback_mul_add_row x ys t i (Suc n) =
     (case fallback_mul_add_row x ys t i n of (t0, c0) \<Rightarrow>
        let product = (ucast x :: u128) * ucast (ys ! n) + ucast (t0 ! (i + n)) + ucast c0
        in (t0[i + n := ucast product], ucast (drop_bit 64 product)))"
  by (simp add: fallback_mul_add_row_def)

lemma fallback_mul_add_row_inv:
  assumes "n \<le> length ys" "i + n \<le> length t"
    and "fallback_mul_add_row x ys t i n = (t', c)"
  shows "length t' = length t
       \<and> (\<forall>k. k < i \<or> i + n \<le> k \<longrightarrow> t' ! k = t ! k)
       \<and> limbs_val t' + 2 ^ (64 * (i + n)) * unat c
           = limbs_val t + 2 ^ (64 * i) * (unat x * limbs_val (take n ys))"
  using assms
proof (induction n arbitrary: t' c)
  case 0
  then show ?case by (simp add: fallback_mul_add_row_def)
next
  case (Suc n)
  obtain t0 c0 where f0: "fallback_mul_add_row x ys t i n = (t0, c0)"
    by (cases "fallback_mul_add_row x ys t i n")
  from Suc.prems have n: "n < length ys" "i + n < length t" by simp_all
  have ih0: "length t0 = length t
       \<and> (\<forall>k. k < i \<or> i + n \<le> k \<longrightarrow> t0 ! k = t ! k)
       \<and> limbs_val t0 + 2 ^ (64 * (i + n)) * unat c0
           = limbs_val t + 2 ^ (64 * i) * (unat x * limbs_val (take n ys))"
    using n f0 by (intro Suc.IH) simp_all
  have ih: "length t0 = length t" "\<And>k. k < i \<or> i + n \<le> k \<Longrightarrow> t0 ! k = t ! k"
    "limbs_val t0 + 2 ^ (64 * (i + n)) * unat c0
       = limbs_val t + 2 ^ (64 * i) * (unat x * limbs_val (take n ys))"
    using ih0 by blast+
  define p where "p = (ucast x :: u128) * ucast (ys ! n) + ucast (t0 ! (i + n)) + ucast c0"
  have tc: "t' = t0[i + n := ucast p]" "c = ucast (drop_bit 64 p)"
    using Suc.prems(3) f0 by (simp_all add: fallback_mul_add_row_Suc Let_def p_def)
  have st: "unat (ucast p :: u64) + 2 ^ 64 * unat c
        = unat x * unat (ys ! n) + unat (t0 ! (i + n)) + unat c0"
    unfolding tc(2) p_def by (rule fallback_step)
  have up: "limbs_val t' + 2 ^ (64 * (i + n)) * unat (t0 ! (i + n))
        = limbs_val t0 + 2 ^ (64 * (i + n)) * unat (ucast p :: u64)"
    unfolding tc(1) using n ih(1) by (intro limbs_val_update) simp
  have len: "length t' = length t"
    using ih(1) by (simp add: tc)
  have frame: "t' ! k = t ! k" if "k < i \<or> i + Suc n \<le> k" for k
    using that ih(2) [of k] by (auto simp: tc)
  define P where "P = (2::nat) ^ (64 * i)"
  define N where "N = (2::nat) ^ (64 * n)"
  define V where "V = limbs_val (take n ys)"
  define u where "u = unat (t0 ! (i + n))"
  have pw: "2 ^ (64 * (i + n)) = P * N" "2 ^ (64 * (i + Suc n)) = P * N * 2 ^ 64"
    by (simp_all add: P_def N_def power_add)
  have vs: "limbs_val (take (Suc n) ys) = V + N * unat (ys ! n)"
    using n by (simp add: limbs_val_take_Suc V_def N_def)
  have h1: "limbs_val t' + P * N * u = limbs_val t0 + P * N * unat (ucast p :: u64)"
    using up by (simp only: pw u_def)
  have h2: "limbs_val t0 + P * N * unat c0 = limbs_val t + P * (unat x * V)"
    using ih(3) by (simp only: pw P_def V_def)
  have h3: "unat (ucast p :: u64) + 2 ^ 64 * unat c = unat x * unat (ys ! n) + u + unat c0"
    using st by (simp only: u_def)
  have "limbs_val t' + P * N * 2 ^ 64 * unat c + P * N * u
      = (limbs_val t' + P * N * u) + P * N * (2 ^ 64 * unat c)"
    by (simp add: algebra_simps)
  also have "\<dots> = limbs_val t0 + P * N * (unat (ucast p :: u64) + 2 ^ 64 * unat c)"
    by (simp only: h1) (simp add: algebra_simps)
  also have "\<dots> = (limbs_val t0 + P * N * unat c0) + P * N * (unat x * unat (ys ! n)) + P * N * u"
    by (simp only: h3) (simp add: algebra_simps)
  also have "\<dots> = limbs_val t + P * (unat x * (V + N * unat (ys ! n))) + P * N * u"
    by (simp only: h2) (simp add: algebra_simps)
  finally have "limbs_val t' + P * N * 2 ^ 64 * unat c
      = limbs_val t + P * (unat x * (V + N * unat (ys ! n)))"
    by simp
  then have "limbs_val t' + 2 ^ (64 * (i + Suc n)) * unat c
      = limbs_val t + 2 ^ (64 * i) * (unat x * limbs_val (take (Suc n) ys))"
    by (simp only: pw vs P_def)
  with len frame show ?case by blast
qed

declare propagate_carry.simps [simp del]

lemma propagate_carry_inv:
  assumes "k \<le> n" "n = length t"
  shows "length (propagate_carry t c k n) = length t
       \<and> (\<forall>j < k. propagate_carry t c k n ! j = t ! j)
       \<and> limbs_val (propagate_carry t c k n) = (limbs_val t + 2 ^ (64 * k) * unat c) mod 2 ^ (64 * n)"
  using assms
proof (induction t c k n rule: propagate_carry.induct)
  case (1 t c k n)
  have bound: "limbs_val t < 2 ^ (64 * n)"
    using limbs_val_bound [of t] "1.prems" by simp
  show ?case
  proof (cases "c \<noteq> 0 \<and> k < n")
    case False
    then have res: "propagate_carry t c k n = t"
      by (subst propagate_carry.simps) auto
    have "(limbs_val t + 2 ^ (64 * k) * unat c) mod 2 ^ (64 * n) = limbs_val t"
    proof (cases "c = 0")
      case True
      then show ?thesis using bound by simp
    next
      case False
      with \<open>\<not> (c \<noteq> 0 \<and> k < n)\<close> "1.prems" have "k = n" by simp
      then show ?thesis using bound by simp
    qed
    then show ?thesis by (simp add: res)
  next
    case True
    define s where "s = (ucast (t ! k) :: u128) + ucast c"
    define t1 where "t1 = t[k := ucast s]"
    define c1 where "c1 = (ucast (drop_bit 64 s) :: u64)"
    have res: "propagate_carry t c k n = propagate_carry t1 c1 (k + 1) n"
      using True by (subst propagate_carry.simps) (simp add: Let_def s_def t1_def c1_def)
    have ih0: "length (propagate_carry t1 c1 (k + 1) n) = length t1
       \<and> (\<forall>j < k + 1. propagate_carry t1 c1 (k + 1) n ! j = t1 ! j)
       \<and> limbs_val (propagate_carry t1 c1 (k + 1) n)
           = (limbs_val t1 + 2 ^ (64 * (k + 1)) * unat c1) mod 2 ^ (64 * n)"
      unfolding t1_def c1_def
      using True "1.prems" by (intro "1.IH" [OF True]) (simp_all add: s_def)
    have st: "unat (ucast s :: u64) + 2 ^ 64 * unat c1 = unat (t ! k) + unat c"
      unfolding c1_def using unat_add3 [of "t ! k" c 0] by (simp only: unat_lo_hi) (simp add: s_def)
    have up: "limbs_val t1 + 2 ^ (64 * k) * unat (t ! k)
        = limbs_val t + 2 ^ (64 * k) * unat (ucast s :: u64)"
      unfolding t1_def using True "1.prems" by (intro limbs_val_update) simp
    have "limbs_val t1 + 2 ^ (64 * (k + 1)) * unat c1 + 2 ^ (64 * k) * unat (t ! k)
        = (limbs_val t1 + 2 ^ (64 * k) * unat (t ! k)) + 2 ^ (64 * k) * (2 ^ 64 * unat c1)"
      by (simp add: algebra_simps power_add)
    also have "\<dots> = limbs_val t + 2 ^ (64 * k) * (unat (ucast s :: u64) + 2 ^ 64 * unat c1)"
      by (simp only: up) (simp add: algebra_simps)
    also have "\<dots> = limbs_val t + 2 ^ (64 * k) * unat c + 2 ^ (64 * k) * unat (t ! k)"
      by (simp only: st) (simp add: algebra_simps)
    finally have v: "limbs_val t1 + 2 ^ (64 * (k + 1)) * unat c1
        = limbs_val t + 2 ^ (64 * k) * unat c"
      by simp
    have "\<forall>j < k. propagate_carry t1 c1 (k + 1) n ! j = t ! j"
      using ih0 by (simp add: t1_def)
    moreover have "length (propagate_carry t1 c1 (k + 1) n) = length t"
      using ih0 by (simp add: t1_def)
    moreover have "limbs_val (propagate_carry t1 c1 (k + 1) n)
        = (limbs_val t + 2 ^ (64 * k) * unat c) mod 2 ^ (64 * n)"
      using ih0 by (simp only: v)
    ultimately show ?thesis
      by (simp only: res)
  qed
qed

subsection \<open>Schoolbook multiplication\<close>

lemma fold_upt_Suc: "fold f [0..<Suc i] z = f i (fold f [0..<i] z)"
  by simp

lemma row_then_propagate:
  assumes "L \<le> length ys" "i + L \<le> n" "n = length t"
    and "fallback_mul_add_row x ys t i L = (t', c)"
  shows "length (propagate_carry t' c (i + L) n) = length t
       \<and> limbs_val (propagate_carry t' c (i + L) n)
           = (limbs_val t + 2 ^ (64 * i) * (unat x * limbs_val (take L ys))) mod 2 ^ (64 * n)"
proof -
  have row: "length t' = length t"
    "limbs_val t' + 2 ^ (64 * (i + L)) * unat c
       = limbs_val t + 2 ^ (64 * i) * (unat x * limbs_val (take L ys))"
    using fallback_mul_add_row_inv [of L ys i t x t' c] assms by simp_all
  have "length (propagate_carry t' c (i + L) n) = length t'
       \<and> (\<forall>j < i + L. propagate_carry t' c (i + L) n ! j = t' ! j)
       \<and> limbs_val (propagate_carry t' c (i + L) n)
           = (limbs_val t' + 2 ^ (64 * (i + L)) * unat c) mod 2 ^ (64 * n)"
    using assms row(1) by (intro propagate_carry_inv) simp_all
  then show ?thesis
    by (simp only: row)
qed

lemma limbs_val_replicate_zero [simp]: "limbs_val (replicate n 0) = 0"
  by (induction n) simp_all

lemma limbs_val_take_le: "limbs_val (take n xs) < 2 ^ (64 * n)"
proof -
  have "limbs_val (take n xs) < 2 ^ (64 * length (take n xs))"
    by (rule limbs_val_bound)
  also have "\<dots> \<le> 2 ^ (64 * n)"
    by (intro power_increasing) simp_all
  finally show ?thesis .
qed

lemma product_bound:
  assumes "i < L" "L \<le> length a"
  shows "limbs_val (take (Suc i) a) * limbs_val (take L b) < 2 ^ (64 * (2 * L))"
proof -
  have "limbs_val (take (Suc i) a) * limbs_val (take L b) < 2 ^ (64 * Suc i) * 2 ^ (64 * L)"
    by (intro mult_strict_mono limbs_val_take_le) simp_all
  also have "\<dots> = 2 ^ (64 * (Suc i + L))"
    by (simp add: power_add)
  also have "\<dots> \<le> 2 ^ (64 * (2 * L))"
    using assms by (intro power_increasing) simp_all
  finally show ?thesis .
qed

lemma neon_schoolbook_inv:
  assumes "L \<le> length a" "L \<le> length b" "i \<le> L"
  shows "length (fold (neon_schoolbook_step a b L) [0..<i] (replicate (2 * L) 0)) = 2 * L
       \<and> limbs_val (fold (neon_schoolbook_step a b L) [0..<i] (replicate (2 * L) 0))
           = limbs_val (take i a) * limbs_val (take L b)"
  using assms(3)
proof (induction i)
  case 0
  show ?case by simp
next
  case (Suc i)
  define t where "t = fold (neon_schoolbook_step a b L) [0..<i] (replicate (2 * L) 0)"
  have ih: "length t = 2 * L" "limbs_val t = limbs_val (take i a) * limbs_val (take L b)"
    using Suc by (simp_all add: t_def)
  obtain t' c where row: "fallback_mul_add_row (a ! i) b t i L = (t', c)"
    by (cases "fallback_mul_add_row (a ! i) b t i L")
  have st: "fold (neon_schoolbook_step a b L) [0..<Suc i] (replicate (2 * L) 0)
      = propagate_carry t' c (i + L) (2 * L)"
    unfolding fold_upt_Suc t_def [symmetric] by (simp add: neon_mul_add_row_eq row)
  have rp: "length (propagate_carry t' c (i + L) (2 * L)) = length t
       \<and> limbs_val (propagate_carry t' c (i + L) (2 * L))
           = (limbs_val t + 2 ^ (64 * i) * (unat (a ! i) * limbs_val (take L b))) mod 2 ^ (64 * (2 * L))"
    using assms Suc.prems ih(1) row by (intro row_then_propagate) simp_all
  have "limbs_val t + 2 ^ (64 * i) * (unat (a ! i) * limbs_val (take L b))
      = limbs_val (take (Suc i) a) * limbs_val (take L b)"
    using assms Suc.prems by (simp add: ih(2) limbs_val_take_Suc algebra_simps)
  moreover have "limbs_val (take (Suc i) a) * limbs_val (take L b) < 2 ^ (64 * (2 * L))"
    using assms Suc.prems by (intro product_bound) simp_all
  ultimately have "limbs_val (propagate_carry t' c (i + L) (2 * L))
      = limbs_val (take (Suc i) a) * limbs_val (take L b)"
    using rp by simp
  then show ?case
    using rp ih(1) by (simp only: st)
qed

lemma limb_zero_above:
  assumes "limbs_val t < 2 ^ (64 * k)" "k \<le> j" "j < length t"
  shows "t ! j = 0"
proof (rule ccontr)
  assume nz: "t ! j \<noteq> 0"
  have "limbs_val (take j t @ t ! j # drop (Suc j) t) = limbs_val (take j t)
      + 2 ^ (64 * j) * (unat (t ! j) + 2 ^ 64 * limbs_val (drop (Suc j) t))"
    using assms(3) by (simp add: limbs_val_append)
  then have v: "limbs_val t = limbs_val (take j t)
      + 2 ^ (64 * j) * (unat (t ! j) + 2 ^ 64 * limbs_val (drop (Suc j) t))"
    using assms(3) by (simp only: id_take_nth_drop [symmetric])
  have "1 \<le> unat (t ! j) + 2 ^ 64 * limbs_val (drop (Suc j) t)"
    using nz by (simp add: unat_gt_0 Suc_leI add_increasing2)
  then have "2 ^ (64 * j) * 1 \<le> 2 ^ (64 * j) * (unat (t ! j) + 2 ^ 64 * limbs_val (drop (Suc j) t))"
    by (rule mult_le_mono2)
  then have "2 ^ (64 * j) * 1 \<le> limbs_val t"
    using v by linarith
  moreover have "(2::nat) ^ (64 * k) \<le> 2 ^ (64 * j)"
    using assms(2) by (intro power_increasing) simp_all
  ultimately show False
    using assms(1) by linarith
qed

lemma fallback_schoolbook_inv:
  assumes "L \<le> length a" "L \<le> length b" "i \<le> L"
  shows "length (fold (fallback_schoolbook_step a b L) [0..<i] (replicate (2 * L) 0)) = 2 * L
       \<and> limbs_val (fold (fallback_schoolbook_step a b L) [0..<i] (replicate (2 * L) 0))
           = limbs_val (take i a) * limbs_val (take L b)"
  using assms(3)
proof (induction i)
  case 0
  show ?case by simp
next
  case (Suc i)
  define t where "t = fold (fallback_schoolbook_step a b L) [0..<i] (replicate (2 * L) 0)"
  have ih: "length t = 2 * L" "limbs_val t = limbs_val (take i a) * limbs_val (take L b)"
    using Suc by (simp_all add: t_def)
  obtain t' c where row: "fallback_mul_add_row (a ! i) b t i L = (t', c)"
    by (cases "fallback_mul_add_row (a ! i) b t i L")
  have st: "fold (fallback_schoolbook_step a b L) [0..<Suc i] (replicate (2 * L) 0)
      = t'[i + L := c]"
    unfolding fold_upt_Suc t_def [symmetric] by (simp add: row)
  have inv: "length t' = length t" "t' ! (i + L) = t ! (i + L)"
    "limbs_val t' + 2 ^ (64 * (i + L)) * unat c
       = limbs_val t + 2 ^ (64 * i) * (unat (a ! i) * limbs_val (take L b))"
    using fallback_mul_add_row_inv [of L b i t "a ! i" t' c] assms Suc.prems ih(1) row
    by simp_all
  have "limbs_val t < 2 ^ (64 * i) * 2 ^ (64 * L)"
    unfolding ih(2) by (intro mult_strict_mono limbs_val_take_le) simp_all
  then have "limbs_val t < 2 ^ (64 * (i + L))"
    by (simp add: power_add)
  then have z: "t ! (i + L) = 0"
    using Suc.prems ih(1) by (intro limb_zero_above [of t "i + L"]) simp_all
  have "limbs_val (t'[i + L := c]) + 2 ^ (64 * (i + L)) * unat (t' ! (i + L))
      = limbs_val t' + 2 ^ (64 * (i + L)) * unat c"
    using Suc.prems ih(1) inv(1) by (intro limbs_val_update) simp
  then have "limbs_val (t'[i + L := c])
      = limbs_val t + 2 ^ (64 * i) * (unat (a ! i) * limbs_val (take L b))"
    using inv z by simp
  also have "\<dots> = limbs_val (take (Suc i) a) * limbs_val (take L b)"
    using assms Suc.prems by (simp add: ih(2) limbs_val_take_Suc algebra_simps)
  finally show ?case
    using inv(1) ih(1) by (simp only: st) simp
qed

lemma neon_schoolbook_mul_val:
  assumes "L \<le> length a" "L \<le> length b"
  shows "length (neon_schoolbook_mul a b L) = 2 * L"
    and "limbs_val (neon_schoolbook_mul a b L) = limbs_val (take L a) * limbs_val (take L b)"
  using neon_schoolbook_inv [OF assms, of L] by (simp_all add: neon_schoolbook_mul_def)

lemma fallback_schoolbook_mul_val:
  assumes "L \<le> length a" "L \<le> length b"
  shows "length (fallback_schoolbook_mul a b L) = 2 * L"
    and "limbs_val (fallback_schoolbook_mul a b L) = limbs_val (take L a) * limbs_val (take L b)"
  using fallback_schoolbook_inv [OF assms, of L] by (simp_all add: fallback_schoolbook_mul_def)

subsection \<open>Montgomery reduction\<close>

lemma limbs_val_nth:
  assumes "j < length t"
  shows "unat (t ! j) = (limbs_val t div 2 ^ (64 * j)) mod 2 ^ 64"
proof -
  define rest where "rest = limbs_val (drop (Suc j) t)"
  have "limbs_val (take j t @ t ! j # drop (Suc j) t) = limbs_val (take j t)
      + 2 ^ (64 * j) * (unat (t ! j) + 2 ^ 64 * rest)"
    using assms by (simp add: limbs_val_append rest_def)
  then have v: "limbs_val t = limbs_val (take j t) + 2 ^ (64 * j) * (unat (t ! j) + 2 ^ 64 * rest)"
    using assms by (simp only: id_take_nth_drop [symmetric])
  have lo: "limbs_val (take j t) < 2 ^ (64 * j)"
    by (rule limbs_val_take_le)
  have "limbs_val t div 2 ^ (64 * j) = unat (t ! j) + 2 ^ 64 * rest"
    unfolding v using lo by simp
  then show ?thesis
    using unat_lt_2p64 [of "t ! j"] by simp
qed

lemma digit_of_mod:
  assumes "i < n"
  shows "((S mod 2 ^ (64 * n)) div 2 ^ (64 * i)) mod 2 ^ 64 = ((S :: nat) div 2 ^ (64 * i)) mod 2 ^ 64"
proof -
  have "64 \<le> 64 * n - 64 * i"
    using assms by simp
  then have "take_bit 64 (take_bit (64 * n - 64 * i) (drop_bit (64 * i) S))
      = take_bit 64 (drop_bit (64 * i) S)"
    by (simp add: min_def)
  then have "take_bit 64 (drop_bit (64 * i) (take_bit (64 * n) S)) = take_bit 64 (drop_bit (64 * i) S)"
    by (simp only: drop_bit_take_bit)
  then show ?thesis
    by (simp only: take_bit_eq_mod drop_bit_eq_div)
qed

lemma limbs_val_upper_half:
  assumes "length t = 2 * L"
  shows "limbs_val (take L (drop L t)) = limbs_val t div 2 ^ (64 * L)"
proof -
  have "limbs_val (take L t @ drop L t) = limbs_val (take L t) + 2 ^ (64 * L) * limbs_val (drop L t)"
    using assms by (simp only: limbs_val_append) simp
  then have "limbs_val t = limbs_val (take L t) + 2 ^ (64 * L) * limbs_val (drop L t)"
    by (simp only: append_take_drop_id)
  moreover have "limbs_val (take L t) < 2 ^ (64 * L)"
    by (rule limbs_val_take_le)
  ultimately have "limbs_val t div 2 ^ (64 * L) = limbs_val (drop L t)"
    by simp
  moreover have "take L (drop L t) = drop L t"
    using assms by simp
  ultimately show ?thesis by simp
qed

lemma compare_limbs_val:
  assumes "n \<le> length a" "n \<le> length b"
  shows "compare_limbs a b n =
           (if limbs_val (take n a) < limbs_val (take n b) then - 1
            else if limbs_val (take n a) = limbs_val (take n b) then 0 else 1)"
  using assms
proof (induction n)
  case 0
  then show ?case by simp
next
  case (Suc n)
  then have n: "n < length a" "n < length b" by simp_all
  define A where "A = limbs_val (take n a)"
  define B where "B = limbs_val (take n b)"
  define P where "P = (2::nat) ^ (64 * n)"
  have A: "A < P" and B: "B < P"
    by (simp_all add: A_def B_def P_def limbs_val_take_le)
  have sa: "limbs_val (take (Suc n) a) = A + P * unat (a ! n)"
    and sb: "limbs_val (take (Suc n) b) = B + P * unat (b ! n)"
    using n by (simp_all add: limbs_val_take_Suc A_def B_def P_def)
  have ih: "compare_limbs a b n = (if A < B then - 1 else if A = B then 0 else 1)"
    using Suc.IH n by (simp add: A_def B_def)
  consider (lt) "unat (a ! n) < unat (b ! n)" | (gt) "unat (b ! n) < unat (a ! n)"
    | (eq) "unat (a ! n) = unat (b ! n)"
    by linarith
  then show ?case
  proof cases
    case lt
    then have "P * (unat (a ! n) + 1) \<le> P * unat (b ! n)"
      by (intro mult_le_mono2) simp
    then have "A + P * unat (a ! n) < B + P * unat (b ! n)"
      using A by (simp add: algebra_simps)
    then show ?thesis
      using lt by (simp add: sa sb word_less_nat_alt)
  next
    case gt
    then have "P * (unat (b ! n) + 1) \<le> P * unat (a ! n)"
      by (intro mult_le_mono2) simp
    then have "B + P * unat (b ! n) < A + P * unat (a ! n)"
      using B by (simp add: algebra_simps)
    then show ?thesis
      using gt by (simp add: sa sb word_less_nat_alt)
  next
    case eq
    then have "a ! n = b ! n"
      by (simp add: word_unat_eq_iff)
    then show ?thesis
      using eq by (simp add: sa sb ih)
  qed
qed

lemma final_reduction_val:
  assumes "length result = L" "L \<le> length modulus"
  shows "length (final_reduction result modulus L) = L"
    and "limbs_val (final_reduction result modulus L) =
           (if limbs_val (take L modulus) \<le> limbs_val result
            then limbs_val result - limbs_val (take L modulus)
            else limbs_val result)"
proof -
  define M where "M = limbs_val (take L modulus)"
  obtain r c where sub: "sub_with_borrow result modulus result L = (r, c)"
    by (cases "sub_with_borrow result modulus result L")
  have S0: "length r = length result \<and> unat c \<le> 1 \<and> drop L r = drop L result \<and>
         limbs_val (take L r) + limbs_val (take L modulus)
         = limbs_val (take L result) + 2 ^ (64 * L) * unat c"
    using assms sub by (intro sub_with_borrow_inv) simp_all
  then have len: "length r = L"
    using assms by simp
  have eq: "limbs_val r + M = limbs_val result + 2 ^ (64 * L) * unat c"
    using S0 len assms by (simp add: M_def)
  have cmp: "compare_limbs result modulus L \<ge> 0 \<longleftrightarrow> M \<le> limbs_val result"
    using compare_limbs_val [of L result modulus] assms by (simp add: M_def)
  have rb: "limbs_val r < 2 ^ (64 * L)"
    using limbs_val_bound [of r] len by simp
  have Mb: "M < 2 ^ (64 * L)"
    by (simp add: M_def limbs_val_take_le)
  have sub_val: "limbs_val r = limbs_val result - M" if "M \<le> limbs_val result"
  proof (cases "unat c = 0")
    case True
    then show ?thesis using eq by simp
  next
    case False
    with S0 have "unat c = 1" by simp
    then have "limbs_val r + M = limbs_val result + 2 ^ (64 * L)"
      using eq by simp
    then show ?thesis
      using that rb Mb by simp
  qed
  show "length (final_reduction result modulus L) = L"
    using assms len by (simp add: final_reduction_def sub)
  show "limbs_val (final_reduction result modulus L) =
           (if limbs_val (take L modulus) \<le> limbs_val result
            then limbs_val result - limbs_val (take L modulus)
            else limbs_val result)"
    using sub_val cmp by (simp add: final_reduction_def sub M_def [symmetric])
qed

lemma montgomery_digit_cancels:
  fixes u mu M B U m :: nat
  assumes "(mu * M + 1) mod B = 0" "U mod B = u" "m = (u * mu) mod B"
  shows "B dvd U + m * M"
proof -
  have "(U + m * M) mod B = (U mod B + (m * M) mod B) mod B"
    by (simp only: mod_add_eq)
  also have "(m * M) mod B = ((u * mu) * M) mod B"
    unfolding assms(3) by (simp only: mod_mult_left_eq)
  also have "(U mod B + ((u * mu) * M) mod B) mod B = (u + (u * mu) * M) mod B"
    unfolding assms(2) by (simp only: mod_add_right_eq)
  also have "u + (u * mu) * M = u * (mu * M + 1)"
    by (simp add: algebra_simps)
  also have "(u * (mu * M + 1)) mod B = (u * ((mu * M + 1) mod B)) mod B"
    by (simp only: mod_mult_right_eq)
  also have "\<dots> = 0"
    by (simp only: assms(1)) simp
  finally show ?thesis
    by (simp only: mod_eq_0_iff_dvd)
qed

lemma fallback_reduce_inv:
  assumes L: "L \<le> length modulus" and len: "length t0 = 2 * L" and i: "i \<le> L"
    and mu: "(unat mu * limbs_val (take L modulus) + 1) mod 2 ^ 64 = 0"
  shows "\<exists>Q. Q < 2 ^ (64 * i)
           \<and> 2 ^ (64 * i) dvd limbs_val t0 + Q * limbs_val (take L modulus)
           \<and> length (fold (fallback_reduce_step modulus mu L) [0..<i] t0) = 2 * L
           \<and> limbs_val (fold (fallback_reduce_step modulus mu L) [0..<i] t0)
               = (limbs_val t0 + Q * limbs_val (take L modulus)) mod 2 ^ (64 * (2 * L))"
  using i
proof (induction i)
  case 0
  have "limbs_val t0 < 2 ^ (64 * (2 * L))"
    using limbs_val_bound [of t0] len by simp
  then show ?case
    using len by (intro exI [of _ 0]) simp
next
  case (Suc i)
  define M where "M = limbs_val (take L modulus)"
  define B where "B = (2::nat) ^ 64"
  define P where "P = (2::nat) ^ (64 * i)"
  define R2 where "R2 = (2::nat) ^ (64 * (2 * L))"
  define t where "t = fold (fallback_reduce_step modulus mu L) [0..<i] t0"
  from Suc obtain Q where Q: "Q < P" "P dvd limbs_val t0 + Q * M" "length t = 2 * L"
    "limbs_val t = (limbs_val t0 + Q * M) mod R2"
    unfolding M_def P_def R2_def t_def by auto
  define S where "S = limbs_val t0 + Q * M"
  define U where "U = S div P"
  define m where "m = t ! i * mu"
  have il: "i < L" using Suc.prems by simp
  have SU: "S = P * U"
    using Q(2) by (simp add: U_def S_def)
  have "unat (t ! i) = (limbs_val t div 2 ^ (64 * i)) mod 2 ^ 64"
    using il Q(3) by (intro limbs_val_nth) simp
  also have "\<dots> = ((S mod 2 ^ (64 * (2 * L))) div 2 ^ (64 * i)) mod 2 ^ 64"
    by (simp only: Q(4) S_def R2_def)
  also have "\<dots> = (S div 2 ^ (64 * i)) mod 2 ^ 64"
    using il by (intro digit_of_mod) simp
  finally have u: "U mod B = unat (t ! i)"
    by (simp only: U_def P_def B_def)
  have um: "unat m = (unat (t ! i) * unat mu) mod B"
    by (simp add: m_def unat_word_ariths B_def)
  have mb: "unat m < B"
    using unat_lt_2p64 [of m] by (simp add: B_def)
  have "B dvd U + unat m * M"
    using mu u um by (intro montgomery_digit_cancels [of "unat mu" M B U "unat (t ! i)"])
      (simp_all only: M_def B_def)
  then have dv: "P * B dvd P * (U + unat m * M)"
    by (rule mult_dvd_mono [OF dvd_refl])
  obtain t' c where row: "fallback_mul_add_row m modulus t i L = (t', c)"
    by (cases "fallback_mul_add_row m modulus t i L")
  have st: "fold (fallback_reduce_step modulus mu L) [0..<Suc i] t0
      = propagate_carry t' c (i + L) (2 * L)"
    unfolding fold_upt_Suc t_def [symmetric] by (simp add: Let_def m_def [symmetric] row)
  have rp: "length (propagate_carry t' c (i + L) (2 * L)) = length t
       \<and> limbs_val (propagate_carry t' c (i + L) (2 * L))
           = (limbs_val t + 2 ^ (64 * i) * (unat m * limbs_val (take L modulus))) mod 2 ^ (64 * (2 * L))"
    using L il Q(3) row by (intro row_then_propagate) simp_all
  have "limbs_val (propagate_carry t' c (i + L) (2 * L)) = (S mod R2 + P * (unat m * M)) mod R2"
    using rp by (simp only: Q(4) S_def P_def M_def R2_def)
  also have "\<dots> = (S + P * (unat m * M)) mod R2"
    by (simp only: mod_add_left_eq)
  also have "S + P * (unat m * M) = limbs_val t0 + (Q + P * unat m) * M"
    by (simp add: S_def algebra_simps)
  finally have v: "limbs_val (propagate_carry t' c (i + L) (2 * L))
      = (limbs_val t0 + (Q + P * unat m) * M) mod R2" .
  have "limbs_val t0 + (Q + P * unat m) * M = P * (U + unat m * M)"
    using SU by (simp add: S_def algebra_simps)
  then have d: "P * B dvd limbs_val t0 + (Q + P * unat m) * M"
    using dv by simp
  have "P * (unat m + 1) \<le> P * B"
    using mb by (intro mult_le_mono2) simp
  then have q: "Q + P * unat m < P * B"
    using Q(1) by (simp add: algebra_simps)
  have PB: "2 ^ (64 * Suc i) = P * B"
    by (simp add: P_def B_def power_add)
  show ?case
    unfolding st PB M_def [symmetric] R2_def [symmetric]
    using q d v rp Q(3) by (intro exI [of _ "Q + P * unat m"]) simp
qed

lemma neon_montgomery_reduce_eq:
  "neon_montgomery_reduce t modulus mu L = fallback_montgomery_reduce t modulus mu L"
  by (simp add: neon_montgomery_reduce_def fallback_montgomery_reduce_def neon_mul_add_row_eq)

text \<open>
  What the reduction computes, with no assumption on the size of the modulus: the
  sum \<open>T + Q M\<close> is a multiple of \<open>R = 2^(64 L)\<close>, but the buffer holds it only modulo
  \<open>R^2\<close>.
\<close>

lemma fallback_montgomery_reduce_val:
  assumes "L \<le> length modulus" and "length t0 = 2 * L"
    and "(unat mu * limbs_val (take L modulus) + 1) mod 2 ^ 64 = 0"
  shows "\<exists>Q r0. Q < 2 ^ (64 * L)
           \<and> 2 ^ (64 * L) dvd limbs_val t0 + Q * limbs_val (take L modulus)
           \<and> r0 = ((limbs_val t0 + Q * limbs_val (take L modulus)) mod 2 ^ (64 * (2 * L)))
                    div 2 ^ (64 * L)
           \<and> length (fallback_montgomery_reduce t0 modulus mu L) = L
           \<and> limbs_val (fallback_montgomery_reduce t0 modulus mu L)
               = (if limbs_val (take L modulus) \<le> r0 then r0 - limbs_val (take L modulus) else r0)"
proof -
  define M where "M = limbs_val (take L modulus)"
  define t where "t = fold (fallback_reduce_step modulus mu L) [0..<L] t0"
  define result where "result = take L (drop L t)"
  obtain Q where Q: "Q < 2 ^ (64 * L)" "2 ^ (64 * L) dvd limbs_val t0 + Q * M"
    "length t = 2 * L" "limbs_val t = (limbs_val t0 + Q * M) mod 2 ^ (64 * (2 * L))"
    using fallback_reduce_inv [OF assms(1,2) order_refl assms(3)]
    unfolding M_def t_def by blast
  have rl: "length result = L"
    using Q(3) by (simp add: result_def)
  have rv: "limbs_val result = ((limbs_val t0 + Q * M) mod 2 ^ (64 * (2 * L))) div 2 ^ (64 * L)"
    unfolding result_def using Q(3) by (simp only: limbs_val_upper_half Q(4))
  have red: "fallback_montgomery_reduce t0 modulus mu L = final_reduction result modulus L"
    by (simp add: fallback_montgomery_reduce_def Let_def t_def result_def)
  have "length (final_reduction result modulus L) = L"
    and "limbs_val (final_reduction result modulus L)
         = (if M \<le> limbs_val result then limbs_val result - M else limbs_val result)"
    using final_reduction_val [OF rl assms(1)] by (simp_all only: M_def)
  then show ?thesis
    unfolding red M_def [symmetric]
    using Q(1,2) rv by (intro exI [of _ Q] exI [of _ "limbs_val result"]) simp
qed

lemma montgomery_arith:
  fixes A B M R Q r0 r :: nat
  assumes "A < M" "B < M" "2 * M \<le> R" "Q < R" "R dvd A * B + Q * M"
    and "r0 = ((A * B + Q * M) mod (R * R)) div R"
    and "r = (if M \<le> r0 then r0 - M else r0)"
  shows "r < M \<and> (r * R) mod M = (A * B) mod M"
proof -
  define S where "S = A * B + Q * M"
  have M0: "0 < M" and R0: "0 < R"
    using assms(1,3) by simp_all
  have ab: "A * B < M * M"
    using assms(1,2) by (intro mult_strict_mono) simp_all
  have qm: "Q * M \<le> R * M"
    using assms(4) by (intro mult_le_mono1) simp
  have mm: "2 * (M * M) \<le> R * M"
    using mult_le_mono1 [OF assms(3), of M] by (simp add: algebra_simps)
  have rm: "2 * (R * M) \<le> R * R"
    using mult_le_mono2 [OF assms(3), of R] by (simp add: algebra_simps)
  have rr: "0 < R * R"
    using R0 by simp
  have S_lt: "S < R * R"
    unfolding S_def using ab qm mm rm rr by linarith
  then have r0: "r0 = S div R"
    by (simp add: assms(6) S_def)
  have SR: "S = R * r0"
    using assms(5) by (simp add: r0 S_def)
  have "S < 2 * (R * M)"
    unfolding S_def using ab qm mm by linarith
  then have "R * r0 < R * (2 * M)"
    by (simp add: SR [symmetric] algebra_simps)
  then have r0b: "r0 < 2 * M"
    by simp
  then have rb: "r < M"
    unfolding assms(7) by (cases "M \<le> r0") simp_all
  have "r * R + (if M \<le> r0 then R else 0) * M = r0 * R"
    by (simp add: assms(7) algebra_simps flip: add_mult_distrib)
  then have "r * R + (if M \<le> r0 then R else 0) * M = A * B + Q * M"
    using SR by (simp add: S_def algebra_simps)
  then have "(r * R + (if M \<le> r0 then R else 0) * M) mod M = (A * B + Q * M) mod M"
    by (rule arg_cong)
  then have "(r * R) mod M = (A * B) mod M"
    by (simp only: mod_mult_self1 mod_mult_self2)
  with rb show ?thesis by simp
qed

lemma montgomery_inverse_form:
  fixes r R M X Rinv :: nat
  assumes "r < M" "(r * R) mod M = X mod M" "(R * Rinv) mod M = 1"
  shows "r = (X * Rinv) mod M"
proof -
  have "r = (r * 1) mod M"
    using assms(1) by simp
  also have "\<dots> = (r * ((R * Rinv) mod M)) mod M"
    by (simp only: assms(3))
  also have "\<dots> = (r * (R * Rinv)) mod M"
    by (simp only: mod_mult_right_eq)
  also have "\<dots> = ((r * R) * Rinv) mod M"
    by (simp only: mult.assoc)
  also have "\<dots> = (((r * R) mod M) * Rinv) mod M"
    by (simp only: mod_mult_left_eq)
  also have "\<dots> = ((X mod M) * Rinv) mod M"
    by (simp only: assms(2))
  also have "\<dots> = (X * Rinv) mod M"
    by (simp only: mod_mult_left_eq)
  finally show ?thesis .
qed

lemma fallback_montgomery_reduce_correct:
  assumes "length modulus = L" and "length t0 = 2 * L"
    and "(unat mu * limbs_val modulus + 1) mod 2 ^ 64 = 0"
    and "limbs_val t0 = A * B" "A < limbs_val modulus" "B < limbs_val modulus"
    and "2 * limbs_val modulus \<le> 2 ^ (64 * L)"
  shows "length (fallback_montgomery_reduce t0 modulus mu L) = L
       \<and> limbs_val (fallback_montgomery_reduce t0 modulus mu L) < limbs_val modulus
       \<and> (limbs_val (fallback_montgomery_reduce t0 modulus mu L) * 2 ^ (64 * L)) mod limbs_val modulus
           = (A * B) mod limbs_val modulus"
proof -
  have tk: "take L modulus = modulus"
    using assms(1) by simp
  obtain Q r0 where Q: "Q < 2 ^ (64 * L)" "2 ^ (64 * L) dvd A * B + Q * limbs_val modulus"
    "r0 = ((A * B + Q * limbs_val modulus) mod 2 ^ (64 * (2 * L))) div 2 ^ (64 * L)"
    "length (fallback_montgomery_reduce t0 modulus mu L) = L"
    "limbs_val (fallback_montgomery_reduce t0 modulus mu L)
       = (if limbs_val modulus \<le> r0 then r0 - limbs_val modulus else r0)"
    using fallback_montgomery_reduce_val [of L modulus t0 mu] assms(1,2,3)
    unfolding tk assms(4) by auto
  have R2: "(2::nat) ^ (64 * (2 * L)) = 2 ^ (64 * L) * 2 ^ (64 * L)"
    by (simp add: power_add [symmetric])
  have "limbs_val (fallback_montgomery_reduce t0 modulus mu L) < limbs_val modulus
      \<and> (limbs_val (fallback_montgomery_reduce t0 modulus mu L) * 2 ^ (64 * L)) mod limbs_val modulus
           = (A * B) mod limbs_val modulus"
    using assms(5,6,7) Q(1,2) Q(3) [unfolded R2] Q(5) by (rule montgomery_arith)
  with Q(4) show ?thesis by simp
qed

lemma montgomery_mul_generic:
  assumes "length a = L" "length b = L" "length modulus = L"
    and "(unat mu * limbs_val modulus + 1) mod 2 ^ 64 = 0"
    and "limbs_val a < limbs_val modulus" "limbs_val b < limbs_val modulus"
    and "2 * limbs_val modulus \<le> 2 ^ (64 * L)"
    and "r = neon_montgomery_reduce (neon_schoolbook_mul a b L) modulus mu L
         \<or> r = fallback_montgomery_reduce (fallback_schoolbook_mul a b L) modulus mu L"
  shows "length r = L \<and> limbs_val r < limbs_val modulus
       \<and> (limbs_val r * 2 ^ (64 * L)) mod limbs_val modulus
           = (limbs_val a * limbs_val b) mod limbs_val modulus"
proof -
  have n: "length (neon_schoolbook_mul a b L) = 2 * L"
          "limbs_val (neon_schoolbook_mul a b L) = limbs_val a * limbs_val b"
    using neon_schoolbook_mul_val [of L a b] assms(1,2) by simp_all
  have f: "length (fallback_schoolbook_mul a b L) = 2 * L"
          "limbs_val (fallback_schoolbook_mul a b L) = limbs_val a * limbs_val b"
    using fallback_schoolbook_mul_val [of L a b] assms(1,2) by simp_all
  from assms(8) show ?thesis
  proof
    assume "r = neon_montgomery_reduce (neon_schoolbook_mul a b L) modulus mu L"
    then have r: "r = fallback_montgomery_reduce (neon_schoolbook_mul a b L) modulus mu L"
      by (simp only: neon_montgomery_reduce_eq)
    show ?thesis
      unfolding r using assms(3) n(1) assms(4) n(2) assms(5,6,7)
      by (rule fallback_montgomery_reduce_correct)
  next
    assume r: "r = fallback_montgomery_reduce (fallback_schoolbook_mul a b L) modulus mu L"
    show ?thesis
      unfolding r using assms(3) f(1) assms(4) f(2) assms(5,6,7)
      by (rule fallback_montgomery_reduce_correct)
  qed
qed

text \<open>
  Claim C1, amended. For \<open>L = 4\<close> (\<open>neon_montgomery_mul_4limb\<close>) and \<open>L = 6\<close>
  (\<open>neon_montgomery_mul_6limb\<close>), on either compilation path: for every \<open>L\<close>-limb modulus
  \<open>m\<close> with \<open>2 m \<le> R = 2^(64 L)\<close> (its top bit is clear), every \<open>mu\<close> with
  \<open>mu m \<equiv> -1 (mod 2^64)\<close> (which makes \<open>m\<close> odd), and all \<open>L\<close>-limb operands
  \<open>a, b < m\<close>, the result has \<open>L\<close> limbs, its value \<open>r\<close> is strictly less than \<open>m\<close>, and
  \<open>r R \<equiv> a b (mod m)\<close>; so \<open>r = a b R\<^sup>-\<^sup>1 mod m\<close> for every inverse \<open>R\<^sup>-\<^sup>1\<close> of \<open>R\<close>
  modulo \<open>m\<close>.
\<close>

theorem montgomery_mul_correct:
  fixes a b modulus :: "u64 list" and mu :: u64 and L :: nat and NEON_AVAILABLE :: bool
  assumes "L = 4 \<or> L = 6"
    and "length a = L" and "length b = L" and "length modulus = L"
    and "(unat mu * limbs_val modulus + 1) mod 2 ^ 64 = 0"
    and "limbs_val a < limbs_val modulus" and "limbs_val b < limbs_val modulus"
    and "2 * limbs_val modulus \<le> 2 ^ (64 * L)"
  defines "r \<equiv> (if L = 4 then neon_montgomery_mul_4limb NEON_AVAILABLE a b modulus mu
                 else neon_montgomery_mul_6limb NEON_AVAILABLE a b modulus mu)"
  shows "length r = L
       \<and> limbs_val r < limbs_val modulus
       \<and> (limbs_val r * 2 ^ (64 * L)) mod limbs_val modulus
           = (limbs_val a * limbs_val b) mod limbs_val modulus
       \<and> (\<forall>Rinv. (2 ^ (64 * L) * Rinv) mod limbs_val modulus = 1 \<longrightarrow>
             limbs_val r = (limbs_val a * limbs_val b * Rinv) mod limbs_val modulus)"
proof -
  have "r = neon_montgomery_reduce (neon_schoolbook_mul a b L) modulus mu L
      \<or> r = fallback_montgomery_reduce (fallback_schoolbook_mul a b L) modulus mu L"
    using assms(1)
    by (auto simp: r_def neon_montgomery_mul_4limb_def neon_montgomery_mul_6limb_def)
  with assms(2-8) have main: "length r = L \<and> limbs_val r < limbs_val modulus
       \<and> (limbs_val r * 2 ^ (64 * L)) mod limbs_val modulus
           = (limbs_val a * limbs_val b) mod limbs_val modulus"
    by (rule montgomery_mul_generic)
  have "limbs_val r = (limbs_val a * limbs_val b * Rinv) mod limbs_val modulus"
    if inv: "(2 ^ (64 * L) * Rinv) mod limbs_val modulus = 1" for Rinv
  proof (rule montgomery_inverse_form [where R = "2 ^ (64 * L)"])
    show "limbs_val r < limbs_val modulus"
      using main by simp
    show "(limbs_val r * 2 ^ (64 * L)) mod limbs_val modulus
        = (limbs_val a * limbs_val b) mod limbs_val modulus"
      using main by simp
    show "(2 ^ (64 * L) * Rinv) mod limbs_val modulus = 1"
      by (rule inv)
  qed
  with main show ?thesis by blast
qed

theorem montgomery_mul_correct_witness:
  "length (neon_montgomery_mul_4limb True
       [0x00000001FFFFFFFE, 0x5884B7FA00034802, 0x998C4FEFECBC4FF5, 0x1824B159ACC5056F]
       [0x00000001FFFFFFFE, 0x5884B7FA00034802, 0x998C4FEFECBC4FF5, 0x1824B159ACC5056F]
       [0xFFFFFFFF00000001, 0x53BDA402FFFE5BFE, 0x3339D80809A1D805, 0x73EDA753299D7D48]
       0xFFFFFFFEFFFFFFFF) = 4
   \<and> limbs_val (neon_montgomery_mul_4limb True
       [0x00000001FFFFFFFE, 0x5884B7FA00034802, 0x998C4FEFECBC4FF5, 0x1824B159ACC5056F]
       [0x00000001FFFFFFFE, 0x5884B7FA00034802, 0x998C4FEFECBC4FF5, 0x1824B159ACC5056F]
       [0xFFFFFFFF00000001, 0x53BDA402FFFE5BFE, 0x3339D80809A1D805, 0x73EDA753299D7D48]
       0xFFFFFFFEFFFFFFFF)
     < limbs_val [0xFFFFFFFF00000001, 0x53BDA402FFFE5BFE, 0x3339D80809A1D805, 0x73EDA753299D7D48]
   \<and> limbs_val (neon_montgomery_mul_4limb True
       [0x00000001FFFFFFFE, 0x5884B7FA00034802, 0x998C4FEFECBC4FF5, 0x1824B159ACC5056F]
       [0x00000001FFFFFFFE, 0x5884B7FA00034802, 0x998C4FEFECBC4FF5, 0x1824B159ACC5056F]
       [0xFFFFFFFF00000001, 0x53BDA402FFFE5BFE, 0x3339D80809A1D805, 0x73EDA753299D7D48]
       0xFFFFFFFEFFFFFFFF)
     = (limbs_val [0x00000001FFFFFFFE, 0x5884B7FA00034802, 0x998C4FEFECBC4FF5, 0x1824B159ACC5056F]
        * limbs_val [0x00000001FFFFFFFE, 0x5884B7FA00034802, 0x998C4FEFECBC4FF5, 0x1824B159ACC5056F]
        * 12549076656233958353659347336803947287922716146853412054870763148006372261952)
       mod limbs_val [0xFFFFFFFF00000001, 0x53BDA402FFFE5BFE, 0x3339D80809A1D805, 0x73EDA753299D7D48]"
proof -
  define a :: "u64 list" where
    "a = [0x00000001FFFFFFFE, 0x5884B7FA00034802, 0x998C4FEFECBC4FF5, 0x1824B159ACC5056F]"
  define m :: "u64 list" where
    "m = [0xFFFFFFFF00000001, 0x53BDA402FFFE5BFE, 0x3339D80809A1D805, 0x73EDA753299D7D48]"
  have va: "limbs_val a = 10920338887063814464675503992315976177888879664585288394250266608035967270910"
    by (simp add: a_def)
  have vm: "limbs_val m = 52435875175126190479447740508185965837690552500527637822603658699938581184513"
    by (simp add: m_def)
  have h: "(4::nat) = 4 \<or> (4::nat) = 6" "length a = 4" "length m = 4"
    "(unat (0xFFFFFFFEFFFFFFFF :: u64) * limbs_val m + 1) mod 2 ^ 64 = 0"
    "limbs_val a < limbs_val m" "2 * limbs_val m \<le> 2 ^ (64 * 4)"
    by (simp_all add: va vm) (simp_all add: a_def m_def)
  have inv: "(2 ^ (64 * 4)
      * 12549076656233958353659347336803947287922716146853412054870763148006372261952)
      mod limbs_val m = 1"
    by (simp add: vm)
  define r where "r = (if (4::nat) = 4
      then neon_montgomery_mul_4limb True a a m 0xFFFFFFFEFFFFFFFF
      else neon_montgomery_mul_6limb True a a m 0xFFFFFFFEFFFFFFFF)"
  have r: "r = neon_montgomery_mul_4limb True a a m 0xFFFFFFFEFFFFFFFF"
    by (simp add: r_def)
  have th: "length r = 4 \<and> limbs_val r < limbs_val m
      \<and> (limbs_val r * 2 ^ (64 * 4)) mod limbs_val m = (limbs_val a * limbs_val a) mod limbs_val m
      \<and> (\<forall>Rinv. (2 ^ (64 * 4) * Rinv) mod limbs_val m = 1 \<longrightarrow>
            limbs_val r = (limbs_val a * limbs_val a * Rinv) mod limbs_val m)"
    unfolding r_def
    by (rule montgomery_mul_correct [OF h(1) h(2) h(2) h(3) h(4) h(5) h(5) h(6)])
  then have "limbs_val r = (limbs_val a * limbs_val a
      * 12549076656233958353659347336803947287922716146853412054870763148006372261952)
      mod limbs_val m"
    using inv by blast
  with th show ?thesis
    unfolding r a_def m_def by blast
qed

text \<open>
  Claim C1 as stated fails for a modulus whose top bit is set. The loops that propagate
  a carry stop at limb \<open>2 L - 1\<close> (\<open>while (carry && k < 2 * limb_count)\<close>), and the
  sum \<open>T + Q m\<close> of the reduction can reach \<open>2^(128 L)\<close> when \<open>2 m > R\<close>: the carry out
  of the buffer is lost. With \<open>m = 2^256 - 1\<close>, \<open>mu = 1\<close> and \<open>a = b = m - 1\<close> the
  product \<open>a b R\<^sup>-\<^sup>1 mod m\<close> is 1, and both paths return 0.
\<close>

theorem montgomery_mul_counterexample:
  "odd (limbs_val [0xFFFFFFFFFFFFFFFF, 0xFFFFFFFFFFFFFFFF, 0xFFFFFFFFFFFFFFFF, 0xFFFFFFFFFFFFFFFF])
   \<and> (unat (1 :: u64)
        * limbs_val [0xFFFFFFFFFFFFFFFF, 0xFFFFFFFFFFFFFFFF, 0xFFFFFFFFFFFFFFFF, 0xFFFFFFFFFFFFFFFF]
        + 1) mod 2 ^ 64 = 0
   \<and> limbs_val [0xFFFFFFFFFFFFFFFE, 0xFFFFFFFFFFFFFFFF, 0xFFFFFFFFFFFFFFFF, 0xFFFFFFFFFFFFFFFF]
       < limbs_val [0xFFFFFFFFFFFFFFFF, 0xFFFFFFFFFFFFFFFF, 0xFFFFFFFFFFFFFFFF, 0xFFFFFFFFFFFFFFFF]
   \<and> neon_montgomery_mul_4limb True
       [0xFFFFFFFFFFFFFFFE, 0xFFFFFFFFFFFFFFFF, 0xFFFFFFFFFFFFFFFF, 0xFFFFFFFFFFFFFFFF]
       [0xFFFFFFFFFFFFFFFE, 0xFFFFFFFFFFFFFFFF, 0xFFFFFFFFFFFFFFFF, 0xFFFFFFFFFFFFFFFF]
       [0xFFFFFFFFFFFFFFFF, 0xFFFFFFFFFFFFFFFF, 0xFFFFFFFFFFFFFFFF, 0xFFFFFFFFFFFFFFFF] 1
     = [0, 0, 0, 0]
   \<and> neon_montgomery_mul_4limb False
       [0xFFFFFFFFFFFFFFFE, 0xFFFFFFFFFFFFFFFF, 0xFFFFFFFFFFFFFFFF, 0xFFFFFFFFFFFFFFFF]
       [0xFFFFFFFFFFFFFFFE, 0xFFFFFFFFFFFFFFFF, 0xFFFFFFFFFFFFFFFF, 0xFFFFFFFFFFFFFFFF]
       [0xFFFFFFFFFFFFFFFF, 0xFFFFFFFFFFFFFFFF, 0xFFFFFFFFFFFFFFFF, 0xFFFFFFFFFFFFFFFF] 1
     = [0, 0, 0, 0]
   \<and> (limbs_val [0, 0, 0, 0] * 2 ^ (64 * 4))
        mod limbs_val [0xFFFFFFFFFFFFFFFF, 0xFFFFFFFFFFFFFFFF, 0xFFFFFFFFFFFFFFFF, 0xFFFFFFFFFFFFFFFF]
     \<noteq> (limbs_val [0xFFFFFFFFFFFFFFFE, 0xFFFFFFFFFFFFFFFF, 0xFFFFFFFFFFFFFFFF, 0xFFFFFFFFFFFFFFFF]
        * limbs_val [0xFFFFFFFFFFFFFFFE, 0xFFFFFFFFFFFFFFFF, 0xFFFFFFFFFFFFFFFF, 0xFFFFFFFFFFFFFFFF])
        mod limbs_val [0xFFFFFFFFFFFFFFFF, 0xFFFFFFFFFFFFFFFF, 0xFFFFFFFFFFFFFFFF, 0xFFFFFFFFFFFFFFFF]"
proof -
  have "neon_montgomery_mul_4limb True
       [0xFFFFFFFFFFFFFFFE, 0xFFFFFFFFFFFFFFFF, 0xFFFFFFFFFFFFFFFF, 0xFFFFFFFFFFFFFFFF]
       [0xFFFFFFFFFFFFFFFE, 0xFFFFFFFFFFFFFFFF, 0xFFFFFFFFFFFFFFFF, 0xFFFFFFFFFFFFFFFF]
       [0xFFFFFFFFFFFFFFFF, 0xFFFFFFFFFFFFFFFF, 0xFFFFFFFFFFFFFFFF, 0xFFFFFFFFFFFFFFFF] 1
     = [0, 0, 0, 0]"
    by code_simp
  moreover have "neon_montgomery_mul_4limb False
       [0xFFFFFFFFFFFFFFFE, 0xFFFFFFFFFFFFFFFF, 0xFFFFFFFFFFFFFFFF, 0xFFFFFFFFFFFFFFFF]
       [0xFFFFFFFFFFFFFFFE, 0xFFFFFFFFFFFFFFFF, 0xFFFFFFFFFFFFFFFF, 0xFFFFFFFFFFFFFFFF]
       [0xFFFFFFFFFFFFFFFF, 0xFFFFFFFFFFFFFFFF, 0xFFFFFFFFFFFFFFFF, 0xFFFFFFFFFFFFFFFF] 1
     = [0, 0, 0, 0]"
    by code_simp
  ultimately show ?thesis
    by simp
qed

section \<open>The batch multiplier\<close>

subsection \<open>Lengths and the limbs a multiplication reads\<close>

lemma fallback_mul_add_row_length:
  "length (fst (fallback_mul_add_row x ys t i n)) = length t"
  by (induction n) (simp_all add: fallback_mul_add_row_def split_beta Let_def)

lemma propagate_carry_length: "length (propagate_carry t c k n) = length t"
proof (induction t c k n rule: propagate_carry.induct)
  case (1 t c k n)
  show ?case
  proof (cases "c \<noteq> 0 \<and> k < n")
    case True
    then show ?thesis
      using "1.IH" [OF True refl] by (subst propagate_carry.simps) (simp add: Let_def)
  next
    case False
    then show ?thesis
      by (subst propagate_carry.simps) auto
  qed
qed

lemma sub_with_borrow_length:
  "length (fst (sub_with_borrow a b result n)) = length result"
  by (induction n) (simp_all add: sub_with_borrow_def split_beta Let_def)

lemma final_reduction_length: "length (final_reduction result modulus L) = length result"
  by (simp add: final_reduction_def sub_with_borrow_length)

lemma fold_length_preserved:
  assumes "\<And>i t. length (f i t) = length t"
  shows "length (fold f xs t) = length t"
  by (induction xs arbitrary: t) (simp_all add: assms)

lemma fallback_montgomery_reduce_length:
  assumes "length t = 2 * L"
  shows "length (fallback_montgomery_reduce t modulus mu L) = L"
proof -
  have "length (fold (fallback_reduce_step modulus mu L) [0..<L] t) = length t"
    by (rule fold_length_preserved)
      (simp add: Let_def split_beta propagate_carry_length fallback_mul_add_row_length)
  then show ?thesis
    using assms by (simp add: fallback_montgomery_reduce_def Let_def final_reduction_length)
qed

lemma neon_schoolbook_mul_length: "length (neon_schoolbook_mul a b L) = 2 * L"
proof -
  have "length (fold (neon_schoolbook_step a b L) [0..<L] (replicate (2 * L) 0))
      = length (replicate (2 * L) (0 :: u64))"
    by (rule fold_length_preserved)
      (simp add: split_beta propagate_carry_length neon_mul_add_row_eq fallback_mul_add_row_length)
  then show ?thesis
    by (simp add: neon_schoolbook_mul_def)
qed

lemma fallback_schoolbook_mul_length: "length (fallback_schoolbook_mul a b L) = 2 * L"
proof -
  have "length (fold (fallback_schoolbook_step a b L) [0..<L] (replicate (2 * L) 0))
      = length (replicate (2 * L) (0 :: u64))"
    by (rule fold_length_preserved) (simp add: split_beta fallback_mul_add_row_length)
  then show ?thesis
    by (simp add: fallback_schoolbook_mul_def)
qed

lemma neon_montgomery_mul_4limb_length:
  "length (neon_montgomery_mul_4limb NEON_AVAILABLE a b modulus mu) = 4"
  by (simp add: neon_montgomery_mul_4limb_def neon_montgomery_reduce_eq
      fallback_montgomery_reduce_length neon_schoolbook_mul_length fallback_schoolbook_mul_length)

lemma neon_montgomery_mul_6limb_length:
  "length (neon_montgomery_mul_6limb NEON_AVAILABLE a b modulus mu) = 6"
  by (simp add: neon_montgomery_mul_6limb_def neon_montgomery_reduce_eq
      fallback_montgomery_reduce_length neon_schoolbook_mul_length fallback_schoolbook_mul_length)

lemma fallback_mul_add_row_take:
  assumes "n \<le> N"
  shows "fallback_mul_add_row x (take N ys) t i n = fallback_mul_add_row x ys t i n"
  unfolding fallback_mul_add_row_def
  using assms by (intro fold_cong refl) simp

lemma fallback_schoolbook_mul_take:
  "fallback_schoolbook_mul (take L a) (take L b) L = fallback_schoolbook_mul a b L"
  unfolding fallback_schoolbook_mul_def
  by (intro fold_cong refl) (simp add: fallback_mul_add_row_take)

lemma neon_schoolbook_mul_take:
  "neon_schoolbook_mul (take L a) (take L b) L = neon_schoolbook_mul a b L"
  unfolding neon_schoolbook_mul_def neon_mul_add_row_eq
  by (intro fold_cong refl) (simp add: fallback_mul_add_row_take)

lemma neon_montgomery_mul_4limb_take:
  "neon_montgomery_mul_4limb NEON_AVAILABLE (take 4 a) (take 4 b) modulus mu
   = neon_montgomery_mul_4limb NEON_AVAILABLE a b modulus mu"
  by (simp only: neon_montgomery_mul_4limb_def neon_schoolbook_mul_take fallback_schoolbook_mul_take)

lemma neon_montgomery_mul_6limb_take:
  "neon_montgomery_mul_6limb NEON_AVAILABLE (take 6 a) (take 6 b) modulus mu
   = neon_montgomery_mul_6limb NEON_AVAILABLE a b modulus mu"
  by (simp only: neon_montgomery_mul_6limb_def neon_schoolbook_mul_take fallback_schoolbook_mul_take)

subsection \<open>Blocks of the batch result\<close>

lemma store_limbs_length:
  assumes "off + length xs \<le> length buf"
  shows "length (store_limbs buf off xs) = length buf"
  using assms by (simp add: store_limbs_def)

lemma store_limbs_block_same:
  assumes "off + length xs \<le> length buf"
  shows "take (length xs) (drop off (store_limbs buf off xs)) = xs"
  using assms by (simp add: store_limbs_def)

lemma store_limbs_block_before:
  assumes "k + L \<le> off" "off \<le> length buf"
  shows "take L (drop k (store_limbs buf off xs)) = take L (drop k buf)"
proof -
  have "take L (drop k (take off buf @ xs @ drop (off + length xs) buf))
      = take L (drop k (take off buf))"
    using assms by simp
  also have "\<dots> = take L (take (off - k) (drop k buf))"
    by (simp only: drop_take)
  also have "\<dots> = take L (drop k buf)"
    using assms by (simp add: min_def)
  finally show ?thesis
    by (simp only: store_limbs_def)
qed

lemma batch_blocks:
  assumes len: "\<And>j. length (r j) = L" and n: "n * L \<le> length results"
  shows "length (fold (\<lambda>i rs. store_limbs rs (i * L) (r i)) [0..<n] results) = length results
       \<and> (\<forall>i < n. take L (drop (i * L) (fold (\<lambda>i rs. store_limbs rs (i * L) (r i)) [0..<n] results))
                    = r i)"
  using n
proof (induction n)
  case 0
  show ?case by simp
next
  case (Suc n)
  define X where "X = fold (\<lambda>i rs. store_limbs rs (i * L) (r i)) [0..<n] results"
  have st: "fold (\<lambda>i rs. store_limbs rs (i * L) (r i)) [0..<Suc n] results
      = store_limbs X (n * L) (r n)"
    by (simp add: X_def)
  have ih: "length X = length results" "\<And>i. i < n \<Longrightarrow> take L (drop (i * L) X) = r i"
    using Suc by (simp_all add: X_def)
  have fit: "n * L + length (r n) \<le> length X"
    using Suc.prems by (simp add: ih(1) len)
  have l: "length (store_limbs X (n * L) (r n)) = length results"
    using fit by (simp add: store_limbs_length ih(1))
  have b: "take L (drop (i * L) (store_limbs X (n * L) (r n))) = r i" if "i < Suc n" for i
  proof (cases "i = n")
    case True
    then show ?thesis
      using store_limbs_block_same [OF fit] by (simp add: len)
  next
    case False
    with that have i: "i < n" by simp
    then have "(i + 1) * L \<le> n * L"
      by (intro mult_le_mono1) simp
    then have "i * L + L \<le> n * L"
      by (simp add: algebra_simps)
    moreover have "n * L \<le> length X"
      using fit by simp
    ultimately have "take L (drop (i * L) (store_limbs X (n * L) (r n))) = take L (drop (i * L) X)"
      by (rule store_limbs_block_before)
    then show ?thesis
      using ih(2) [OF i] by simp
  qed
  show ?case
    unfolding st using l b by simp
qed

text \<open>
  Claim C4. For every \<open>count\<close>, every \<open>limb_count\<close> in \<open>{4, 6}\<close>, every modulus and
  \<open>mu\<close>, and every \<open>i < count\<close>, when the buffers hold the \<open>count\<close> pairs and results
  the batch multiplier returns normally, and block \<open>i\<close> of its output is what the
  single-pair multiplier (\<open>neon_montgomery_mul_4limb\<close> or \<open>neon_montgomery_mul_6limb\<close>)
  returns on the \<open>limb_count\<close> limbs of pair \<open>i\<close> alone: the right-hand side mentions
  neither \<open>count\<close> nor any other limb of \<open>a\<close>, \<open>b\<close> or \<open>results\<close>.
\<close>

theorem batch_consistency:
  assumes "limb_count = 4 \<or> limb_count = 6" and "i < count"
    and "count * nat limb_count \<le> length a" and "count * nat limb_count \<le> length b"
    and "count * nat limb_count \<le> length results" and "nat limb_count \<le> length modulus"
  shows "\<exists>rs. neon_batch_montgomery_mul NEON_AVAILABLE a b modulus mu results count limb_count
               = Inr rs
            \<and> length rs = length results
            \<and> take (nat limb_count) (drop (i * nat limb_count) rs)
               = (if limb_count = 4
                  then neon_montgomery_mul_4limb NEON_AVAILABLE
                         (take 4 (drop (i * 4) a)) (take 4 (drop (i * 4) b)) modulus mu
                  else neon_montgomery_mul_6limb NEON_AVAILABLE
                         (take 6 (drop (i * 6) a)) (take 6 (drop (i * 6) b)) modulus mu)"
  using assms(1)
proof
  assume lc: "limb_count = 4"
  define r where "r = (\<lambda>j. neon_montgomery_mul_4limb NEON_AVAILABLE
      (drop (j * 4) a) (drop (j * 4) b) modulus mu)"
  define rs where "rs = fold (\<lambda>i rs. store_limbs rs (i * 4) (r i)) [0..<count] results"
  have run: "neon_batch_montgomery_mul NEON_AVAILABLE a b modulus mu results count limb_count
      = Inr rs"
    using assms(3-6) by (simp add: neon_batch_montgomery_mul_def lc rs_def r_def)
  have "length rs = length results \<and> (\<forall>i < count. take 4 (drop (i * 4) rs) = r i)"
    unfolding rs_def using assms(5)
    by (intro batch_blocks) (simp_all add: r_def neon_montgomery_mul_4limb_length lc)
  then have "length rs = length results" "take 4 (drop (i * 4) rs) = r i"
    using assms(2) by simp_all
  then show ?thesis
    using run by (simp add: lc r_def neon_montgomery_mul_4limb_take)
next
  assume lc: "limb_count = 6"
  define r where "r = (\<lambda>j. neon_montgomery_mul_6limb NEON_AVAILABLE
      (drop (j * 6) a) (drop (j * 6) b) modulus mu)"
  define rs where "rs = fold (\<lambda>i rs. store_limbs rs (i * 6) (r i)) [0..<count] results"
  have run: "neon_batch_montgomery_mul NEON_AVAILABLE a b modulus mu results count limb_count
      = Inr rs"
    using assms(3-6) by (simp add: neon_batch_montgomery_mul_def lc rs_def r_def)
  have "length rs = length results \<and> (\<forall>i < count. take 6 (drop (i * 6) rs) = r i)"
    unfolding rs_def using assms(5)
    by (intro batch_blocks) (simp_all add: r_def neon_montgomery_mul_6limb_length lc)
  then have "length rs = length results" "take 6 (drop (i * 6) rs) = r i"
    using assms(2) by simp_all
  then show ?thesis
    using run by (simp add: lc r_def neon_montgomery_mul_6limb_take)
qed

theorem batch_consistency_witness:
  "\<exists>rs. neon_batch_montgomery_mul True [1, 2, 3, 4, 5, 6, 7, 8] [8, 7, 6, 5, 4, 3, 2, 1]
            [0xFFFFFFFF00000001, 0x53BDA402FFFE5BFE, 0x3339D80809A1D805, 0x73EDA753299D7D48]
            0xFFFFFFFEFFFFFFFF [0, 0, 0, 0, 0, 0, 0, 0, 9] 2 4 = Inr rs
        \<and> length rs = length [0, 0, 0, 0, 0, 0, 0, 0, 9 :: u64]
        \<and> take 4 (drop 4 rs)
           = neon_montgomery_mul_4limb True [5, 6, 7, 8] [4, 3, 2, 1]
               [0xFFFFFFFF00000001, 0x53BDA402FFFE5BFE, 0x3339D80809A1D805, 0x73EDA753299D7D48]
               0xFFFFFFFEFFFFFFFF"
  using batch_consistency [where limb_count = 4 and i = 1 and count = 2
      and a = "[1, 2, 3, 4, 5, 6, 7, 8]" and b = "[8, 7, 6, 5, 4, 3, 2, 1]"
      and results = "[0, 0, 0, 0, 0, 0, 0, 0, 9]"
      and modulus = "[0xFFFFFFFF00000001, 0x53BDA402FFFE5BFE, 0x3339D80809A1D805, 0x73EDA753299D7D48]"
      and NEON_AVAILABLE = True and mu = "0xFFFFFFFEFFFFFFFF"]
  by simp

subsection \<open>Unsupported limb counts\<close>

text \<open>
  Claim C5. For every \<open>count\<close> and every limb count other than 4 and 6 (a number of
  limbs: \<open>limb_count \<ge> 0\<close>), with a buffer \<open>results\<close> of at least \<open>count * limb_count\<close>
  limbs, whose size in bytes fits in a \<open>size_t\<close>: \<open>neon_batch_montgomery_mul\<close> writes
  exactly \<open>count * limb_count\<close> zero limbs to \<open>results\<close>, leaves the rest as it was,
  and returns normally; the result does not depend on \<open>a\<close>, \<open>b\<close>, \<open>modulus\<close> or \<open>mu\<close>,
  so no arithmetic of the unsupported width is done.
\<close>

theorem batch_unsupported_limb_count:
  assumes "limb_count \<noteq> 4" and "limb_count \<noteq> 6" and "0 \<le> limb_count"
    and "count * nat limb_count * 8 < 2 ^ 64"
    and "count * nat limb_count \<le> length results"
  shows "neon_batch_montgomery_mul NEON_AVAILABLE a b modulus mu results count limb_count
         = Inr (replicate (count * nat limb_count) 0 @ drop (count * nat limb_count) results)"
proof -
  define n where "n = nat limb_count"
  have "size_t_of_int limb_count = n mod 2 ^ 64"
    using assms(3) by (simp add: size_t_of_int_def n_def nat_mod_distrib)
  then have "(count * size_t_of_int limb_count * 8) mod 2 ^ 64 = (count * (n mod 2 ^ 64) * 8) mod 2 ^ 64"
    by simp
  also have "\<dots> = ((count * 8) * (n mod 2 ^ 64)) mod 2 ^ 64"
    by (simp only: mult.assoc mult.commute [of _ 8])
  also have "\<dots> = ((count * 8) * n) mod 2 ^ 64"
    by (simp only: mod_mult_right_eq)
  also have "\<dots> = (count * n * 8) mod 2 ^ 64"
    by (simp only: mult.assoc mult.commute [of _ 8])
  also have "\<dots> = count * n * 8"
    using assms(4) by (simp add: n_def)
  finally have nb: "(count * size_t_of_int limb_count * 8) mod 2 ^ 64 = count * n * 8" .
  have "neon_batch_montgomery_mul NEON_AVAILABLE a b modulus mu results count limb_count
        = memset_zero results (count * n * 8)"
    using assms(1,2) by (simp only: neon_batch_montgomery_mul_def nb if_False)
  also have "\<dots> = Inr (replicate (count * n) 0 @ drop (count * n) results)"
    using assms(5) by (simp add: memset_zero_def n_def)
  finally show ?thesis
    by (simp only: n_def)
qed

theorem batch_unsupported_limb_count_witness:
  "neon_batch_montgomery_mul True [1, 2] [3, 4] [5] 9 [7, 7, 7, 7, 7, 7, 7] 2 3
   = Inr (replicate (2 * nat 3) 0 @ drop (2 * nat 3) [7, 7, 7, 7, 7, 7, 7])"
  by (rule batch_unsupported_limb_count) simp_all

text \<open>
  Why the theorem asks for \<open>limb_count \<ge> 0\<close>: the parameter is an \<open>int\<close>, and the byte
  count \<open>count * limb_count * sizeof(uint64_t)\<close> is computed in \<open>size_t\<close>. A negative
  value is no number of limbs; with \<open>limb_count = -1\<close> and \<open>count = 1\<close> the byte count
  is \<open>2^64 - 8\<close>, more than any buffer holds.
\<close>

lemma batch_negative_limb_count:
  "neon_batch_montgomery_mul True [] [] [] 0 [7] 1 (- 1) = Inl OutOfBounds"
  by (simp add: neon_batch_montgomery_mul_def memset_zero_def size_t_of_int_def)

section \<open>The butterfly in memory\<close>

lemma disjoint_blocks_neq:
  assumes "disjoint_blocks p q n" "i < n" "j < n"
  shows "p + i \<noteq> q + j"
  using assms by (auto simp add: disjoint_blocks_def)

lemma disjoint_blocks_outside:
  assumes "disjoint_blocks p q n" "j < n"
  shows "\<not> (p \<le> q + j \<and> q + j < p + n)"
  using assms by (auto simp add: disjoint_blocks_def)

lemma elementwise_loop:
  fixes f :: "'a \<Rightarrow> 'a \<Rightarrow> 'a"
  assumes "disjoint_blocks C A N" "disjoint_blocks C B N" "k \<le> N"
  shows "fold (\<lambda>n mem. mem(C + n := f (mem (A + n)) (mem (B + n)))) [0..<k] mem a
       = (if C \<le> a \<and> a < C + k then f (mem (A + (a - C))) (mem (B + (a - C))) else mem a)"
  using assms(3)
proof (induction k arbitrary: a)
  case 0
  show ?case by auto
next
  case (Suc k)
  define F where "F = fold (\<lambda>n mem. mem(C + n := f (mem (A + n)) (mem (B + n)))) [0..<k] mem"
  have st: "fold (\<lambda>n mem. mem(C + n := f (mem (A + n)) (mem (B + n)))) [0..<Suc k] mem
      = F(C + k := f (F (A + k)) (F (B + k)))"
    by (simp add: F_def)
  have ih: "F b = (if C \<le> b \<and> b < C + k then f (mem (A + (b - C))) (mem (B + (b - C))) else mem b)"
    for b
    unfolding F_def using Suc.prems by (intro Suc.IH) simp
  have k: "k < N" using Suc.prems by simp
  have "\<not> (C \<le> A + k \<and> A + k < C + N)" "\<not> (C \<le> B + k \<and> B + k < C + N)"
    using assms(1,2) k by (simp_all add: disjoint_blocks_outside)
  then have in_A: "F (A + k) = mem (A + k)" and in_B: "F (B + k) = mem (B + k)"
    using k by (auto simp add: ih)
  show ?case
  proof (cases "a = C + k")
    case True
    then show ?thesis
      unfolding st by (simp add: in_A in_B)
  next
    case False
    then show ?thesis
      unfolding st using ih [of a] by auto
  qed
qed

lemma butterfly_scalar_loop_result:
  fixes mem :: "'a::{plus,minus,times} memory"
  assumes "disjoint_blocks oe oo n"
    and "disjoint_blocks oe ie n" "disjoint_blocks oe io n" "disjoint_blocks oe tw n"
    and "disjoint_blocks oo ie n" "disjoint_blocks oo io n" "disjoint_blocks oo tw n"
    and "k \<le> n"
  shows "butterfly_scalar_loop ie io tw oe oo k mem a
       = (if oe \<le> a \<and> a < oe + k
          then mem (ie + (a - oe)) + mem (tw + (a - oe)) * mem (io + (a - oe))
          else if oo \<le> a \<and> a < oo + k
          then mem (ie + (a - oo)) - mem (tw + (a - oo)) * mem (io + (a - oo))
          else mem a)"
  using assms(8)
proof (induction k arbitrary: a)
  case 0
  show ?case by (auto simp add: butterfly_scalar_loop_def)
next
  case (Suc k)
  define F where "F = butterfly_scalar_loop ie io tw oe oo k mem"
  define t where "t = F (tw + k) * F (io + k)"
  have st: "butterfly_scalar_loop ie io tw oe oo (Suc k) mem
      = (F(oe + k := F (ie + k) + t))
          (oo + k := (F(oe + k := F (ie + k) + t)) (ie + k) - t)"
    by (simp add: butterfly_scalar_loop_def F_def t_def Let_def)
  have ih: "F b = (if oe \<le> b \<and> b < oe + k
          then mem (ie + (b - oe)) + mem (tw + (b - oe)) * mem (io + (b - oe))
          else if oo \<le> b \<and> b < oo + k
          then mem (ie + (b - oo)) - mem (tw + (b - oo)) * mem (io + (b - oo))
          else mem b)" for b
    unfolding F_def using Suc.prems by (intro Suc.IH) simp
  have k: "k < n" using Suc.prems by simp
  have out: "\<not> (oe \<le> ie + k \<and> ie + k < oe + n)" "\<not> (oe \<le> io + k \<and> io + k < oe + n)"
    "\<not> (oe \<le> tw + k \<and> tw + k < oe + n)" "\<not> (oo \<le> ie + k \<and> ie + k < oo + n)"
    "\<not> (oo \<le> io + k \<and> io + k < oo + n)" "\<not> (oo \<le> tw + k \<and> tw + k < oo + n)"
    using assms(2-7) k by (simp_all add: disjoint_blocks_outside)
  have rd: "F (ie + k) = mem (ie + k)" "F (io + k) = mem (io + k)" "F (tw + k) = mem (tw + k)"
    using out k by (auto simp add: ih)
  have ne: "ie + k \<noteq> oe + k" "oe + k \<noteq> oo + k"
    using disjoint_blocks_neq [OF assms(2) k k] disjoint_blocks_neq [OF assms(1) k k] by auto
  have st': "butterfly_scalar_loop ie io tw oe oo (Suc k) mem
      = (F(oe + k := mem (ie + k) + mem (tw + k) * mem (io + k)))
          (oo + k := mem (ie + k) - mem (tw + k) * mem (io + k))"
    unfolding st using ne by (simp add: t_def rd)
  have sep: "\<not> (oe \<le> oo + k \<and> oo + k < oe + n)"
    using assms(1) k by (simp add: disjoint_blocks_outside)
  consider "a = oo + k" | "a = oe + k" "a \<noteq> oo + k" | "a \<noteq> oe + k" "a \<noteq> oo + k"
    by blast
  then show ?case
  proof cases
    case 1
    then show ?thesis
      unfolding st' using sep k by auto
  next
    case 2
    then show ?thesis
      unfolding st' by simp
  next
    case 3
    then show ?thesis
      unfolding st' using ih [of a] by auto
  qed
qed

lemma vdsp_path_result:
  fixes mem :: "'a::{plus,minus,times} memory"
  assumes "disjoint_blocks oe oo n"
    and "disjoint_blocks oe ie n" "disjoint_blocks oe io n" "disjoint_blocks oe tw n"
    and "disjoint_blocks oo ie n" "disjoint_blocks oo io n" "disjoint_blocks oo tw n"
    and "disjoint_blocks temp ie n" "disjoint_blocks temp io n" "disjoint_blocks temp tw n"
    and "disjoint_blocks temp oe n" "disjoint_blocks temp oo n"
    and "\<not> (temp \<le> a \<and> a < temp + n)"
  shows "vDSP_vsubD temp ie oo n (vDSP_vaddD ie temp oe n (vDSP_vmulD tw io temp n mem)) a
       = (if oe \<le> a \<and> a < oe + n
          then mem (ie + (a - oe)) + mem (tw + (a - oe)) * mem (io + (a - oe))
          else if oo \<le> a \<and> a < oo + n
          then mem (ie + (a - oo)) - mem (tw + (a - oo)) * mem (io + (a - oo))
          else mem a)"
proof -
  define m1 where "m1 = vDSP_vmulD tw io temp n mem"
  define m2 where "m2 = vDSP_vaddD ie temp oe n m1"
  define m3 where "m3 = vDSP_vsubD temp ie oo n m2"
  have m1: "m1 b = (if temp \<le> b \<and> b < temp + n
      then mem (tw + (b - temp)) * mem (io + (b - temp)) else mem b)" for b
    unfolding m1_def vDSP_vmulD_def using assms(10,9) by (rule elementwise_loop) simp
  have oe_temp: "disjoint_blocks oe temp n" and oo_temp: "disjoint_blocks oo temp n"
    using assms(11,12) by (auto simp add: disjoint_blocks_def)
  have m2: "m2 b = (if oe \<le> b \<and> b < oe + n
      then m1 (ie + (b - oe)) + m1 (temp + (b - oe)) else m1 b)" for b
    unfolding m2_def vDSP_vaddD_def using assms(2) oe_temp by (rule elementwise_loop) simp
  have m3: "m3 b = (if oo \<le> b \<and> b < oo + n
      then m2 (ie + (b - oo)) - m2 (temp + (b - oo)) else m2 b)" for b
    unfolding m3_def vDSP_vsubD_def using assms(5) oo_temp by (rule elementwise_loop) simp
  have t: "m1 (temp + j) = mem (tw + j) * mem (io + j)" if "j < n" for j
    using that by (simp add: m1)
  have ie1: "m1 (ie + j) = mem (ie + j)" if "j < n" for j
    using disjoint_blocks_outside [OF assms(8) that] by (auto simp add: m1)
  have ie2: "m2 (ie + j) = mem (ie + j)" if "j < n" for j
    using disjoint_blocks_outside [OF assms(2) that] ie1 [OF that] by (auto simp add: m2)
  have t2: "m2 (temp + j) = mem (tw + j) * mem (io + j)" if "j < n" for j
    using disjoint_blocks_outside [OF oe_temp that] t [OF that] by (auto simp add: m2)
  show ?thesis
  proof (cases "oo \<le> a \<and> a < oo + n")
    case True
    then have j: "a - oo < n" by auto
    have "\<not> (oe \<le> a \<and> a < oe + n)"
      using disjoint_blocks_outside [OF assms(1) j] True by simp
    then show ?thesis
      using True m3 [of a] ie2 [OF j] t2 [OF j] by (auto simp add: m3_def m2_def m1_def)
  next
    case False
    note oo = this
    show ?thesis
    proof (cases "oe \<le> a \<and> a < oe + n")
      case True
      then have j: "a - oe < n" by auto
      show ?thesis
        using True oo m3 [of a] m2 [of a] ie1 [OF j] t [OF j] by (auto simp add: m3_def m2_def m1_def)
    next
      case False
      then show ?thesis
        using oo assms(13) m3 [of a] m2 [of a] m1 [of a] by (auto simp add: m3_def m2_def m1_def)
    qed
  qed
qed

lemma vdsp_ntt_butterfly_f64_result:
  fixes mem :: "'a::{plus,minus,times} memory"
  assumes "\<forall>p \<in> {in_even, in_odd, twiddle_real, out_odd}. disjoint_blocks out_even p n"
    and "\<forall>p \<in> {in_even, in_odd, twiddle_real}. disjoint_blocks out_odd p n"
    and "\<forall>temp. malloc_temp = Some temp \<longrightarrow>
           (\<forall>p \<in> {in_even, in_odd, twiddle_real, out_even, out_odd}. disjoint_blocks temp p n)
           \<and> \<not> (temp \<le> a \<and> a < temp + n)"
  shows "vdsp_ntt_butterfly_f64 APPLE malloc_temp in_even in_odd twiddle_real twiddle_imag
           out_even out_odd n mem a
       = (if out_even \<le> a \<and> a < out_even + n
          then mem (in_even + (a - out_even))
               + mem (twiddle_real + (a - out_even)) * mem (in_odd + (a - out_even))
          else if out_odd \<le> a \<and> a < out_odd + n
          then mem (in_even + (a - out_odd))
               - mem (twiddle_real + (a - out_odd)) * mem (in_odd + (a - out_odd))
          else mem a)"
proof -
  have d: "disjoint_blocks out_even out_odd n"
    "disjoint_blocks out_even in_even n" "disjoint_blocks out_even in_odd n"
    "disjoint_blocks out_even twiddle_real n"
    "disjoint_blocks out_odd in_even n" "disjoint_blocks out_odd in_odd n"
    "disjoint_blocks out_odd twiddle_real n"
    using assms(1,2) by simp_all
  have scalar: "butterfly_scalar_loop in_even in_odd twiddle_real out_even out_odd n mem a
       = (if out_even \<le> a \<and> a < out_even + n
          then mem (in_even + (a - out_even))
               + mem (twiddle_real + (a - out_even)) * mem (in_odd + (a - out_even))
          else if out_odd \<le> a \<and> a < out_odd + n
          then mem (in_even + (a - out_odd))
               - mem (twiddle_real + (a - out_odd)) * mem (in_odd + (a - out_odd))
          else mem a)"
    using d by (rule butterfly_scalar_loop_result) simp
  show ?thesis
  proof (cases "APPLE \<and> malloc_temp \<noteq> None")
    case False
    then show ?thesis
      using scalar by (auto simp add: vdsp_ntt_butterfly_f64_def)
  next
    case True
    then obtain temp where temp: "malloc_temp = Some temp" by auto
    have f: "disjoint_blocks temp in_even n" "disjoint_blocks temp in_odd n"
      "disjoint_blocks temp twiddle_real n" "disjoint_blocks temp out_even n"
      "disjoint_blocks temp out_odd n" "\<not> (temp \<le> a \<and> a < temp + n)"
      using assms(3) temp by simp_all
    show ?thesis
      using True temp vdsp_path_result [OF d f, of mem]
      by (simp add: vdsp_ntt_butterfly_f64_def Let_def)
  qed
qed

lemma vdsp_ntt_butterfly_f64_outputs:
  fixes mem :: "'a::{plus,minus,times} memory"
  assumes "i < n"
    and "\<forall>p \<in> {in_even, in_odd, twiddle_real, out_odd}. disjoint_blocks out_even p n"
    and "\<forall>p \<in> {in_even, in_odd, twiddle_real}. disjoint_blocks out_odd p n"
    and "\<forall>temp. malloc_temp = Some temp \<longrightarrow>
           (\<forall>p \<in> {in_even, in_odd, twiddle_real, out_even, out_odd}. disjoint_blocks temp p n)"
  shows "vdsp_ntt_butterfly_f64 APPLE malloc_temp in_even in_odd twiddle_real twiddle_imag
           out_even out_odd n mem (out_even + i)
         = mem (in_even + i) + mem (twiddle_real + i) * mem (in_odd + i)"
    and "vdsp_ntt_butterfly_f64 APPLE malloc_temp in_even in_odd twiddle_real twiddle_imag
           out_even out_odd n mem (out_odd + i)
         = mem (in_even + i) - mem (twiddle_real + i) * mem (in_odd + i)"
proof -
  have fresh: "\<forall>temp. malloc_temp = Some temp \<longrightarrow>
      (\<forall>p \<in> {in_even, in_odd, twiddle_real, out_even, out_odd}. disjoint_blocks temp p n)
      \<and> \<not> (temp \<le> a \<and> a < temp + n)"
    if "a = out_even + i \<or> a = out_odd + i" for a
    using assms(1,4) that disjoint_blocks_outside [of _ out_even n i]
      disjoint_blocks_outside [of _ out_odd n i]
    by auto
  have not_even: "\<not> (out_even \<le> out_odd + i \<and> out_odd + i < out_even + n)"
    using assms(1,2) by (simp add: disjoint_blocks_outside)
  show "vdsp_ntt_butterfly_f64 APPLE malloc_temp in_even in_odd twiddle_real twiddle_imag
           out_even out_odd n mem (out_even + i)
         = mem (in_even + i) + mem (twiddle_real + i) * mem (in_odd + i)"
    using assms(1)
      vdsp_ntt_butterfly_f64_result [OF assms(2,3) fresh, where a = "out_even + i" and mem = mem]
    by auto
  show "vdsp_ntt_butterfly_f64 APPLE malloc_temp in_even in_odd twiddle_real twiddle_imag
           out_even out_odd n mem (out_odd + i)
         = mem (in_even + i) - mem (twiddle_real + i) * mem (in_odd + i)"
    using assms(1) not_even
      vdsp_ntt_butterfly_f64_result [OF assms(2,3) fresh, where a = "out_odd + i" and mem = mem]
    by auto
qed

text \<open>
  Claim C6 as stated fails for a call that works in place. With \<open>out_even = in_even\<close>
  the store to \<open>out_even[i]\<close> overwrites \<open>in_even[i]\<close> before \<open>out_odd[i]\<close> is computed
  from it, so \<open>out_odd[i]\<close> is \<open>(in_even[i] + t) - t\<close>: for \<open>in_even = [1, 2]\<close>,
  \<open>in_odd = [3, 4]\<close> and \<open>twiddle_real = [5, 6]\<close> the code leaves \<open>out_odd = [1, 2]\<close>,
  not \<open>[-14, -22]\<close>, on both platforms.
\<close>

theorem ntt_butterfly_elementwise_counterexample:
  "vdsp_ntt_butterfly_f64 False None 0 2 4 6 0 8 2
     (\<lambda>a. if a < 8 then [1, 2, 3, 4, 5, 6, 7, 8 :: int] ! a else 0) (8 + 0) = 1
   \<and> vdsp_ntt_butterfly_f64 True (Some 10) 0 2 4 6 0 8 2
     (\<lambda>a. if a < 8 then [1, 2, 3, 4, 5, 6, 7, 8 :: int] ! a else 0) (8 + 0) = 1
   \<and> (\<lambda>a. if a < 8 then [1, 2, 3, 4, 5, 6, 7, 8 :: int] ! a else 0) (0 + 0)
       - (\<lambda>a. if a < 8 then [1, 2, 3, 4, 5, 6, 7, 8 :: int] ! a else 0) (4 + 0)
         * (\<lambda>a. if a < 8 then [1, 2, 3, 4, 5, 6, 7, 8 :: int] ! a else 0) (2 + 0) = - 14"
  by (simp add: vdsp_ntt_butterfly_f64_def butterfly_scalar_loop_def vDSP_vmulD_def
      vDSP_vaddD_def vDSP_vsubD_def upt_conv_Cons Let_def)

text \<open>
  Claim C6, amended. For every \<open>n\<close> and every index \<open>i < n\<close>, on both platforms and
  whether or not \<open>malloc\<close> succeeds: when the block \<open>out_even\<close> overlaps none of
  \<open>in_even\<close>, \<open>in_odd\<close>, \<open>twiddle_real\<close> and \<open>out_odd\<close>, and the block \<open>out_odd\<close> overlaps none
  of \<open>in_even\<close>, \<open>in_odd\<close> and \<open>twiddle_real\<close> (and the block that \<open>malloc\<close> returns is a
  fresh one), \<open>vdsp_ntt_butterfly_f64\<close> sets
  \<open>out_even[i] = in_even[i] + twiddle_real[i] * in_odd[i]\<close> and
  \<open>out_odd[i] = in_even[i] - twiddle_real[i] * in_odd[i]\<close>, with the values the inputs
  had before the call. The outputs are a function of the three input arrays only: the
  memory left is the same for any pointer \<open>twiddle_imag\<close>, and two memories that agree
  on \<open>in_even\<close>, \<open>in_odd\<close> and \<open>twiddle_real\<close> give the same outputs.
\<close>

theorem ntt_butterfly_elementwise:
  fixes mem mem' :: "'a::{plus,minus,times} memory"
  assumes "i < n"
    and "\<forall>p \<in> {in_even, in_odd, twiddle_real, out_odd}. disjoint_blocks out_even p n"
    and "\<forall>p \<in> {in_even, in_odd, twiddle_real}. disjoint_blocks out_odd p n"
    and "\<forall>temp. malloc_temp = Some temp \<longrightarrow>
           (\<forall>p \<in> {in_even, in_odd, twiddle_real, out_even, out_odd}. disjoint_blocks temp p n)"
  shows "vdsp_ntt_butterfly_f64 APPLE malloc_temp in_even in_odd twiddle_real twiddle_imag
           out_even out_odd n mem (out_even + i)
         = mem (in_even + i) + mem (twiddle_real + i) * mem (in_odd + i)
       \<and> vdsp_ntt_butterfly_f64 APPLE malloc_temp in_even in_odd twiddle_real twiddle_imag
           out_even out_odd n mem (out_odd + i)
         = mem (in_even + i) - mem (twiddle_real + i) * mem (in_odd + i)
       \<and> vdsp_ntt_butterfly_f64 APPLE malloc_temp in_even in_odd twiddle_real twiddle_imag'
           out_even out_odd n mem
         = vdsp_ntt_butterfly_f64 APPLE malloc_temp in_even in_odd twiddle_real twiddle_imag
           out_even out_odd n mem
       \<and> ((\<forall>j < n. mem' (in_even + j) = mem (in_even + j) \<and> mem' (in_odd + j) = mem (in_odd + j)
                   \<and> mem' (twiddle_real + j) = mem (twiddle_real + j)) \<longrightarrow>
            vdsp_ntt_butterfly_f64 APPLE malloc_temp in_even in_odd twiddle_real twiddle_imag
              out_even out_odd n mem' (out_even + i)
            = vdsp_ntt_butterfly_f64 APPLE malloc_temp in_even in_odd twiddle_real twiddle_imag
              out_even out_odd n mem (out_even + i)
          \<and> vdsp_ntt_butterfly_f64 APPLE malloc_temp in_even in_odd twiddle_real twiddle_imag
              out_even out_odd n mem' (out_odd + i)
            = vdsp_ntt_butterfly_f64 APPLE malloc_temp in_even in_odd twiddle_real twiddle_imag
              out_even out_odd n mem (out_odd + i))"
proof -
  note out = vdsp_ntt_butterfly_f64_outputs [OF assms(1-4)]
  have even: "vdsp_ntt_butterfly_f64 APPLE malloc_temp in_even in_odd twiddle_real twiddle_imag
           out_even out_odd n m (out_even + i)
         = m (in_even + i) + m (twiddle_real + i) * m (in_odd + i)" for m :: "'a memory"
    by (rule out(1))
  have odd: "vdsp_ntt_butterfly_f64 APPLE malloc_temp in_even in_odd twiddle_real twiddle_imag
           out_even out_odd n m (out_odd + i)
         = m (in_even + i) - m (twiddle_real + i) * m (in_odd + i)" for m :: "'a memory"
    by (rule out(2))
  have imag: "vdsp_ntt_butterfly_f64 APPLE malloc_temp in_even in_odd twiddle_real twiddle_imag'
           out_even out_odd n mem
         = vdsp_ntt_butterfly_f64 APPLE malloc_temp in_even in_odd twiddle_real twiddle_imag
           out_even out_odd n mem"
    by (simp add: vdsp_ntt_butterfly_f64_def)
  show ?thesis
    using assms(1) imag by (simp only: even odd) simp
qed

theorem ntt_butterfly_elementwise_witness:
  "vdsp_ntt_butterfly_f64 True (Some 12) 0 2 4 6 8 10 2
     (\<lambda>a. if a < 8 then [1, 2, 3, 4, 5, 6, 7, 8 :: int] ! a else 0) (8 + 1) = 2 + 6 * 4
   \<and> vdsp_ntt_butterfly_f64 True (Some 12) 0 2 4 6 8 10 2
     (\<lambda>a. if a < 8 then [1, 2, 3, 4, 5, 6, 7, 8 :: int] ! a else 0) (10 + 1) = 2 - 6 * 4"
proof -
  have "(1::nat) < 2"
    and "\<forall>p \<in> {0, 2, 4, 10}. disjoint_blocks 8 p 2"
    and "\<forall>p \<in> {0, 2, 4}. disjoint_blocks 10 p 2"
    and "\<forall>temp. Some (12::nat) = Some temp \<longrightarrow>
           (\<forall>p \<in> {0, 2, 4, 8, 10}. disjoint_blocks temp p 2)"
    by (simp_all add: disjoint_blocks_def)
  from ntt_butterfly_elementwise [OF this, where APPLE = True and twiddle_imag = 6
      and mem = "\<lambda>a. if a < 8 then [1, 2, 3, 4, 5, 6, 7, 8 :: int] ! a else 0"]
  show ?thesis by simp
qed

text \<open>
  Claim C7 as stated fails, because the elements are doubles and every operation
  rounds. With \<open>in_even[0] = 2^53\<close> and \<open>twiddle_real[0] = in_odd[0] = 1\<close>, in separate
  arrays: \<open>t = 1\<close>, \<open>out_even[0]\<close> is \<open>2^53 + 1\<close> rounded, which is \<open>2^53\<close>, and
  \<open>out_odd[0] = 2^53 - 1\<close>. So \<open>out_even[0] - out_odd[0] = 1\<close>, and
  \<open>2 * twiddle_real[0] * in_odd[0] = 2\<close>. The same on both platforms.
\<close>

theorem ntt_butterfly_self_consistency_counterexample:
  "vdsp_ntt_butterfly_f64 False None 0 1 2 3 4 5 1
       ((\<lambda>a :: nat. Double 0)(0 := Double (2 ^ 53), 1 := Double 1, 2 := Double 1)) (4 + 0)
     - vdsp_ntt_butterfly_f64 False None 0 1 2 3 4 5 1
       ((\<lambda>a :: nat. Double 0)(0 := Double (2 ^ 53), 1 := Double 1, 2 := Double 1)) (5 + 0)
     = Double 1
   \<and> vdsp_ntt_butterfly_f64 True (Some 6) 0 1 2 3 4 5 1
       ((\<lambda>a :: nat. Double 0)(0 := Double (2 ^ 53), 1 := Double 1, 2 := Double 1)) (4 + 0)
     - vdsp_ntt_butterfly_f64 True (Some 6) 0 1 2 3 4 5 1
       ((\<lambda>a :: nat. Double 0)(0 := Double (2 ^ 53), 1 := Double 1, 2 := Double 1)) (5 + 0)
     = Double 1
   \<and> Double 2 * ((\<lambda>a :: nat. Double 0)(0 := Double (2 ^ 53), 1 := Double 1, 2 := Double 1)) (2 + 0)
       * ((\<lambda>a :: nat. Double 0)(0 := Double (2 ^ 53), 1 := Double 1, 2 := Double 1)) (1 + 0)
     = Double 2"
proof -
  define M where "M = (\<lambda>a :: nat. Double 0)(0 := Double (2 ^ 53), 1 := Double 1, 2 := Double 1)"
  have M: "M 0 = Double (2 ^ 53)" "M 1 = Double 1" "M 2 = Double 1"
    "M (1 + 0) = Double 1" "M (2 + 0) = Double 1"
    by (simp_all add: M_def)
  have scalar: "vdsp_ntt_butterfly_f64 False None 0 1 2 3 4 5 1 M (4 + 0) = M 0 + M 2 * M 1"
    "vdsp_ntt_butterfly_f64 False None 0 1 2 3 4 5 1 M (5 + 0) = M 0 - M 2 * M 1"
    by (simp_all add: vdsp_ntt_butterfly_f64_def butterfly_scalar_loop_def Let_def
        numeral_2_eq_2)
  have vdsp: "vdsp_ntt_butterfly_f64 True (Some 6) 0 1 2 3 4 5 1 M (4 + 0) = M 0 + M 2 * M 1"
    "vdsp_ntt_butterfly_f64 True (Some 6) 0 1 2 3 4 5 1 M (5 + 0) = M 0 - M 2 * M 1"
    by (simp_all add: vdsp_ntt_butterfly_f64_def vDSP_vmulD_def vDSP_vaddD_def vDSP_vsubD_def
        Let_def numeral_2_eq_2)
  have round: "round_to_double 1 = 1" "round_to_double 2 = 2"
    "round_to_double (2 ^ 53 + 1) = 2 ^ 53" "round_to_double (2 ^ 53 - 1) = 2 ^ 53 - 1"
    by (simp_all add: round_to_double_def bit_length.simps Let_def)
  have t: "Double 1 * Double 1 = Double 1" "Double 2 * Double 1 = Double 2"
    by (simp_all add: times_double_def round)
  have even: "Double (2 ^ 53) + Double 1 = Double (2 ^ 53)"
    using round(3) by (simp add: plus_double_def)
  have odd: "Double (2 ^ 53) - Double 1 = Double (2 ^ 53 - 1)"
    using round(4) by (simp add: minus_double_def)
  have diff: "Double (2 ^ 53) - Double (2 ^ 53 - 1) = Double 1"
    by (simp add: minus_double_def round)
  show ?thesis
    unfolding M_def [symmetric] by (simp only: scalar vdsp M t even odd diff)
qed

text \<open>
  Claim C7, amended. When the arithmetic of the elements is exact, that is, when \<open>+\<close>,
  \<open>-\<close> and \<open>*\<close> are those of a commutative ring (the integers, the elements of a finite
  field, the rationals, the real numbers), then for every \<open>n\<close> and every index \<open>i < n\<close>,
  on both platforms, with outputs that overlap neither the inputs nor each other:
  \<open>out_even[i] + out_odd[i] = 2 * in_even[i]\<close> and
  \<open>out_even[i] - out_odd[i] = 2 * twiddle_real[i] * in_odd[i]\<close>.
\<close>

theorem ntt_butterfly_self_consistency:
  fixes mem :: "'a::comm_ring_1 memory"
  assumes "i < n"
    and "\<forall>p \<in> {in_even, in_odd, twiddle_real, out_odd}. disjoint_blocks out_even p n"
    and "\<forall>p \<in> {in_even, in_odd, twiddle_real}. disjoint_blocks out_odd p n"
    and "\<forall>temp. malloc_temp = Some temp \<longrightarrow>
           (\<forall>p \<in> {in_even, in_odd, twiddle_real, out_even, out_odd}. disjoint_blocks temp p n)"
  shows "vdsp_ntt_butterfly_f64 APPLE malloc_temp in_even in_odd twiddle_real twiddle_imag
           out_even out_odd n mem (out_even + i)
         + vdsp_ntt_butterfly_f64 APPLE malloc_temp in_even in_odd twiddle_real twiddle_imag
           out_even out_odd n mem (out_odd + i)
         = 2 * mem (in_even + i)
       \<and> vdsp_ntt_butterfly_f64 APPLE malloc_temp in_even in_odd twiddle_real twiddle_imag
           out_even out_odd n mem (out_even + i)
         - vdsp_ntt_butterfly_f64 APPLE malloc_temp in_even in_odd twiddle_real twiddle_imag
           out_even out_odd n mem (out_odd + i)
         = 2 * mem (twiddle_real + i) * mem (in_odd + i)"
proof -
  note even = vdsp_ntt_butterfly_f64_outputs(1) [OF assms(1-4), of APPLE twiddle_imag mem]
    and odd = vdsp_ntt_butterfly_f64_outputs(2) [OF assms(1-4), of APPLE twiddle_imag mem]
  show ?thesis
    by (simp only: even odd) (simp add: algebra_simps)
qed

theorem ntt_butterfly_self_consistency_witness:
  "vdsp_ntt_butterfly_f64 True (Some 12) 0 2 4 6 8 10 2
     (\<lambda>a. if a < 8 then [1, 2, 3, 4, 5, 6, 7, 8 :: int] ! a else 0) (8 + 1)
   + vdsp_ntt_butterfly_f64 True (Some 12) 0 2 4 6 8 10 2
     (\<lambda>a. if a < 8 then [1, 2, 3, 4, 5, 6, 7, 8 :: int] ! a else 0) (10 + 1)
   = 2 * 2
   \<and> vdsp_ntt_butterfly_f64 True (Some 12) 0 2 4 6 8 10 2
     (\<lambda>a. if a < 8 then [1, 2, 3, 4, 5, 6, 7, 8 :: int] ! a else 0) (8 + 1)
   - vdsp_ntt_butterfly_f64 True (Some 12) 0 2 4 6 8 10 2
     (\<lambda>a. if a < 8 then [1, 2, 3, 4, 5, 6, 7, 8 :: int] ! a else 0) (10 + 1)
   = 2 * 6 * 4"
proof -
  have "(1::nat) < 2"
    and "\<forall>p \<in> {0, 2, 4, 10}. disjoint_blocks 8 p 2"
    and "\<forall>p \<in> {0, 2, 4}. disjoint_blocks 10 p 2"
    and "\<forall>temp. Some (12::nat) = Some temp \<longrightarrow>
           (\<forall>p \<in> {0, 2, 4, 8, 10}. disjoint_blocks temp p 2)"
    by (simp_all add: disjoint_blocks_def)
  from ntt_butterfly_self_consistency [OF this, where APPLE = True and twiddle_imag = 6
      and mem = "\<lambda>a. if a < 8 then [1, 2, 3, 4, 5, 6, 7, 8 :: int] ! a else 0"]
  show ?thesis by simp
qed

lemma round_to_double_exact: "\<bar>x\<bar> < 2 ^ 53 \<Longrightarrow> round_to_double x = x"
  by (simp add: round_to_double_def Let_def nat_less_iff)

text \<open>
  On doubles the identities do hold when no operation rounds. For integer values with
  \<open>in_even[i]\<close>, \<open>twiddle_real[i]\<close> and the product \<open>twiddle_real[i] * in_odd[i]\<close> all of
  magnitude below \<open>2^52\<close>, every intermediate result is an integer of magnitude below
  \<open>2^53\<close>, which is a double.
\<close>

lemma ntt_butterfly_self_consistency_exact_doubles:
  fixes mem :: "double memory"
  assumes "i < n"
    and "\<forall>p \<in> {in_even, in_odd, twiddle_real, out_odd}. disjoint_blocks out_even p n"
    and "\<forall>p \<in> {in_even, in_odd, twiddle_real}. disjoint_blocks out_odd p n"
    and "\<forall>temp. malloc_temp = Some temp \<longrightarrow>
           (\<forall>p \<in> {in_even, in_odd, twiddle_real, out_even, out_odd}. disjoint_blocks temp p n)"
    and "\<bar>double_value (mem (in_even + i))\<bar> < 2 ^ 52"
    and "\<bar>double_value (mem (twiddle_real + i))\<bar> < 2 ^ 52"
    and "\<bar>double_value (mem (twiddle_real + i)) * double_value (mem (in_odd + i))\<bar> < 2 ^ 52"
  shows "vdsp_ntt_butterfly_f64 APPLE malloc_temp in_even in_odd twiddle_real twiddle_imag
           out_even out_odd n mem (out_even + i)
         + vdsp_ntt_butterfly_f64 APPLE malloc_temp in_even in_odd twiddle_real twiddle_imag
           out_even out_odd n mem (out_odd + i)
         = Double 2 * mem (in_even + i)
       \<and> vdsp_ntt_butterfly_f64 APPLE malloc_temp in_even in_odd twiddle_real twiddle_imag
           out_even out_odd n mem (out_even + i)
         - vdsp_ntt_butterfly_f64 APPLE malloc_temp in_even in_odd twiddle_real twiddle_imag
           out_even out_odd n mem (out_odd + i)
         = Double 2 * mem (twiddle_real + i) * mem (in_odd + i)"
proof -
  define a where "a = double_value (mem (in_even + i))"
  define w where "w = double_value (mem (twiddle_real + i))"
  define t where "t = double_value (mem (twiddle_real + i)) * double_value (mem (in_odd + i))"
  define P :: int where "P = 2 ^ 52"
  have P2: "(2 :: int) ^ 53 = 2 * P"
    by (simp add: P_def)
  have b: "\<bar>a\<bar> < P" "\<bar>w\<bar> < P" "\<bar>t\<bar> < P"
    using assms(5-7) by (simp_all add: a_def w_def t_def P_def)
  have exact: "round_to_double x = x" if "\<bar>x\<bar> < 2 * P" for x
    using that round_to_double_exact [of x] by (simp only: P2)
  note even = vdsp_ntt_butterfly_f64_outputs(1) [OF assms(1-4), of APPLE twiddle_imag mem]
    and odd = vdsp_ntt_butterfly_f64_outputs(2) [OF assms(1-4), of APPLE twiddle_imag mem]
  have prod: "mem (twiddle_real + i) * mem (in_odd + i) = Double t"
    using b(3) exact [of t] by (simp add: times_double_def t_def)
  have sum: "mem (in_even + i) + Double t = Double (a + t)"
    using b exact [of "a + t"] by (simp add: plus_double_def a_def)
  have dif: "mem (in_even + i) - Double t = Double (a - t)"
    using b exact [of "a - t"] by (simp add: minus_double_def a_def)
  have "Double (a + t) + Double (a - t) = Double (2 * a)"
    using b exact [of "2 * a"] by (simp add: plus_double_def)
  moreover have "Double 2 * mem (in_even + i) = Double (2 * a)"
    using b exact [of "2 * a"] by (simp add: times_double_def a_def)
  moreover have "Double (a + t) - Double (a - t) = Double (2 * t)"
    using b exact [of "2 * t"] by (simp add: minus_double_def)
  moreover have "Double 2 * mem (twiddle_real + i) = Double (2 * w)"
    using b exact [of "2 * w"] by (simp add: times_double_def w_def)
  moreover have "Double (2 * w) * mem (in_odd + i) = Double (2 * t)"
  proof -
    have e: "2 * w * double_value (mem (in_odd + i)) = 2 * t"
      by (simp add: w_def t_def)
    have "\<bar>2 * t\<bar> < 2 * P"
      using b(3) by simp
    then have "round_to_double (2 * t) = 2 * t"
      by (rule exact)
    then show ?thesis
      by (simp add: times_double_def e)
  qed
  ultimately show ?thesis
    by (simp only: even odd prod sum dif)
qed

section \<open>Scatter-add into buckets\<close>

lemma scatter_row_nth:
  fixes acc pc :: "'a::plus list" and s q :: nat
  defines "f \<equiv> (\<lambda>c (acc :: 'a list). acc[s + c := acc ! (s + c) + pc ! (q + c)])"
  shows "length (fold f [0..<n] acc) = length acc \<and>
         (\<forall>p < length acc. fold f [0..<n] acc ! p =
            (if s \<le> p \<and> p < s + n then acc ! p + pc ! (q + (p - s)) else acc ! p))"
proof (induction n)
  case 0
  show ?case by auto
next
  case (Suc n)
  define F where "F = fold f [0..<n] acc"
  have st: "fold f [0..<Suc n] acc = F[s + n := F ! (s + n) + pc ! (q + n)]"
    by (simp add: F_def f_def)
  have len: "length F = length acc" and
    nth: "\<And>p. p < length acc \<Longrightarrow>
            F ! p = (if s \<le> p \<and> p < s + n then acc ! p + pc ! (q + (p - s)) else acc ! p)"
    using Suc.IH by (simp_all add: F_def)
  show ?case
  proof (intro conjI allI impI)
    show "length (fold f [0..<Suc n] acc) = length acc"
      unfolding st by (simp add: len)
  next
    fix p assume p: "p < length acc"
    show "fold f [0..<Suc n] acc ! p =
            (if s \<le> p \<and> p < s + Suc n then acc ! p + pc ! (q + (p - s)) else acc ! p)"
    proof (cases "p = s + n")
      case True
      then show ?thesis
        unfolding st using p nth [of p] by (simp add: len)
    next
      case False
      then show ?thesis
        unfolding st using p nth [of p] by (simp add: len)
    qed
  qed
qed

lemma blas_bucket_accumulate_fallback_Suc:
  "blas_bucket_accumulate_fallback bi pc acc (Suc n) nb cs =
     (let acc' = blas_bucket_accumulate_fallback bi pc acc n nb cs; bucket = unat (bi ! n)
      in if bucket < nb
         then fold (\<lambda>c acc. acc[bucket * cs + c := acc ! (bucket * cs + c) + pc ! (n * cs + c)])
                [0..<cs] acc'
         else acc')"
  by (simp add: blas_bucket_accumulate_fallback_def Let_def)

lemma blas_bucket_accumulate_fallback_length:
  "length (blas_bucket_accumulate_fallback bi pc acc n nb cs) = length acc"
proof (induction n)
  case 0
  show ?case by (simp add: blas_bucket_accumulate_fallback_def)
next
  case (Suc n)
  show ?case
    using Suc.IH scatter_row_nth [of "unat (bi ! n) * cs" pc "n * cs" cs
        "blas_bucket_accumulate_fallback bi pc acc n nb cs"]
    by (simp add: blas_bucket_accumulate_fallback_Suc Let_def)
qed

lemma blas_bucket_accumulate_fallback_nth:
  assumes "p < length acc"
  shows "blas_bucket_accumulate_fallback bi pc acc n nb cs ! p =
           foldl (+) (acc ! p)
             (map (\<lambda>i. pc ! (i * cs + (p - unat (bi ! i) * cs))) (hits bi n nb cs p))"
proof (induction n)
  case 0
  show ?case by (simp add: blas_bucket_accumulate_fallback_def hits_def)
next
  case (Suc n)
  define A where "A = blas_bucket_accumulate_fallback bi pc acc n nb cs"
  have lenA: "length A = length acc"
    by (simp add: A_def blas_bucket_accumulate_fallback_length)
  have hs: "hits bi (Suc n) nb cs p =
      hits bi n nb cs p @
      (if unat (bi ! n) < nb \<and> unat (bi ! n) * cs \<le> p \<and> p < unat (bi ! n) * cs + cs
       then [n] else [])"
    by (simp add: hits_def)
  show ?case
  proof (cases "unat (bi ! n) < nb")
    case False
    then show ?thesis
      using Suc.IH by (simp add: blas_bucket_accumulate_fallback_Suc Let_def hs)
  next
    case True
    have "blas_bucket_accumulate_fallback bi pc acc (Suc n) nb cs ! p =
          (if unat (bi ! n) * cs \<le> p \<and> p < unat (bi ! n) * cs + cs
           then A ! p + pc ! (n * cs + (p - unat (bi ! n) * cs)) else A ! p)"
      using True assms lenA
        scatter_row_nth [of "unat (bi ! n) * cs" pc "n * cs" cs A]
      by (simp add: blas_bucket_accumulate_fallback_Suc Let_def A_def [symmetric])
    then show ?thesis
      using True Suc.IH by (simp add: hs A_def)
  qed
qed



lemma sum_list_update_add:
  fixes xs :: "'a::comm_monoid_add list"
  shows "k < length xs \<Longrightarrow> sum_list (xs[k := xs ! k + v]) = sum_list xs + v"
proof (induction xs arbitrary: k)
  case Nil
  then show ?case by simp
next
  case (Cons x xs)
  show ?case
  proof (cases k)
    case 0
    then show ?thesis by (simp add: ac_simps)
  next
    case (Suc k')
    then show ?thesis
      using Cons.IH [of k'] Cons.prems by (simp add: ac_simps)
  qed
qed

lemma scatter_row_sum:
  fixes acc pc :: "'a::comm_monoid_add list" and s q :: nat
  defines "f \<equiv> (\<lambda>c (acc :: 'a list). acc[s + c := acc ! (s + c) + pc ! (q + c)])"
  assumes "s + n \<le> length acc"
  shows "sum_list (fold f [0..<n] acc) = sum_list acc + sum_list (map (\<lambda>c. pc ! (q + c)) [0..<n])"
  using assms(2)
proof (induction n)
  case 0
  show ?case by simp
next
  case (Suc n)
  define F where "F = fold f [0..<n] acc"
  have st: "fold f [0..<Suc n] acc = F[s + n := F ! (s + n) + pc ! (q + n)]"
    by (simp add: F_def f_def)
  have len: "length F = length acc"
    using scatter_row_nth [of s pc q n acc] by (simp add: F_def f_def)
  have "sum_list F = sum_list acc + sum_list (map (\<lambda>c. pc ! (q + c)) [0..<n])"
    using Suc by (simp add: F_def)
  moreover have "sum_list (F[s + n := F ! (s + n) + pc ! (q + n)]) = sum_list F + pc ! (q + n)"
    using Suc.prems len by (intro sum_list_update_add) simp
  ultimately show ?case
    unfolding st by (simp add: ac_simps)
qed

lemma blas_bucket_accumulate_fallback_sum:
  fixes acc pc :: "'a::comm_monoid_add list"
  assumes "nb * cs \<le> length acc"
  shows "sum_list (blas_bucket_accumulate_fallback bi pc acc n nb cs) =
           sum_list acc +
           sum_list (map (\<lambda>i. sum_list (map (\<lambda>c. pc ! (i * cs + c)) [0..<cs]))
                         (filter (\<lambda>i. unat (bi ! i) < nb) [0..<n]))"
proof (induction n)
  case 0
  show ?case by (simp add: blas_bucket_accumulate_fallback_def)
next
  case (Suc n)
  define A where "A = blas_bucket_accumulate_fallback bi pc acc n nb cs"
  have lenA: "length A = length acc"
    by (simp add: A_def blas_bucket_accumulate_fallback_length)
  show ?case
  proof (cases "unat (bi ! n) < nb")
    case False
    then show ?thesis
      using Suc.IH by (simp add: blas_bucket_accumulate_fallback_Suc Let_def)
  next
    case True
    then have "(unat (bi ! n) + 1) * cs \<le> nb * cs"
      by (intro mult_le_mono1) simp
    then have "unat (bi ! n) * cs + cs \<le> length A"
      using assms lenA by (simp add: algebra_simps)
    then have "sum_list (fold (\<lambda>c acc. acc[unat (bi ! n) * cs + c :=
                   acc ! (unat (bi ! n) * cs + c) + pc ! (n * cs + c)]) [0..<cs] A)
          = sum_list A + sum_list (map (\<lambda>c. pc ! (n * cs + c)) [0..<cs])"
      by (rule scatter_row_sum)
    then show ?thesis
      using True Suc.IH
      by (simp add: blas_bucket_accumulate_fallback_Suc Let_def A_def [symmetric] ac_simps)
  qed
qed

lemma unat_window_digit:
  "unat (x AND (push_bit w 1 - 1) :: u64) < 2 ^ w"
proof -
  have "(push_bit w 1 - 1 :: u64) = mask w"
    by (simp add: mask_eq_exp_minus_1 push_bit_eq_mult)
  then have "x AND (push_bit w 1 - 1) = take_bit w x"
    by (simp add: take_bit_eq_mask)
  then show ?thesis
    by (simp add: unsigned_take_bit_eq)
qed

lemma sme_fold_Suc:
  "fst (sme_bucket_outer_product sc pt bk (Suc n) nb w) =
     (let bk' = fst (sme_bucket_outer_product sc pt bk n nb w);
          bucket_idx = sc ! n AND (push_bit w 1 - 1)
      in if bucket_idx > 0 \<and> unat bucket_idx \<le> nb
         then bk'[unat (bucket_idx - 1) := bk' ! unat (bucket_idx - 1) + pt ! n]
         else bk')"
  by (simp add: sme_bucket_outer_product_def Let_def)

lemma sme_length: "length (fst (sme_bucket_outer_product sc pt bk n nb w)) = length bk"
proof (induction n)
  case 0
  show ?case by (simp add: sme_bucket_outer_product_def)
next
  case (Suc n)
  then show ?case by (simp add: sme_fold_Suc Let_def)
qed

lemma sme_bucket_outer_product_sum:
  fixes bk pt :: "'a::comm_monoid_add list"
  assumes "w < 64" "nb = 2 ^ w - 1" "nb \<le> length bk"
  shows "sum_list (fst (sme_bucket_outer_product sc pt bk n nb w)) =
           sum_list bk +
           sum_list (map (\<lambda>i. pt ! i)
                         (filter (\<lambda>i. sc ! i AND (push_bit w 1 - 1) \<noteq> 0) [0..<n]))"
proof (induction n)
  case 0
  show ?case by (simp add: sme_bucket_outer_product_def)
next
  case (Suc n)
  define B where "B = fst (sme_bucket_outer_product sc pt bk n nb w)"
  define d where "d = sc ! n AND (push_bit w 1 - 1)"
  have lenB: "length B = length bk"
    by (simp add: B_def sme_length)
  have dle: "unat d \<le> nb"
    using unat_window_digit [of "sc ! n" w] assms(2) by (simp add: d_def)
  have step: "fst (sme_bucket_outer_product sc pt bk (Suc n) nb w) =
      (if d > 0 \<and> unat d \<le> nb then B[unat (d - 1) := B ! unat (d - 1) + pt ! n] else B)"
    by (simp add: sme_fold_Suc Let_def d_def B_def)
  have flt: "filter (\<lambda>i. sc ! i AND (push_bit w 1 - 1) \<noteq> 0) [0..<Suc n] =
      filter (\<lambda>i. sc ! i AND (push_bit w 1 - 1) \<noteq> 0) [0..<n] @ (if d \<noteq> 0 then [n] else [])"
    by (simp add: d_def)
  have ih: "sum_list B = sum_list bk +
           sum_list (map (\<lambda>i. pt ! i)
                         (filter (\<lambda>i. sc ! i AND (push_bit w 1 - 1) \<noteq> 0) [0..<n]))"
    using Suc.IH by (simp add: B_def)
  show ?case
  proof (cases "d = 0")
    case True
    then show ?thesis
      unfolding step flt using ih by simp
  next
    case False
    then have pos: "0 < d" "0 < unat d"
      by (simp_all add: word_greater_zero_iff unat_gt_0)
    then have "unat (d - 1) = unat d - 1"
      by (simp add: unat_minus_one False)
    then have "unat (d - 1) < length B"
      using dle pos assms(3) lenB by simp
    then have "sum_list (B[unat (d - 1) := B ! unat (d - 1) + pt ! n]) = sum_list B + pt ! n"
      by (rule sum_list_update_add)
    then show ?thesis
      unfolding step flt using False pos dle ih by (simp add: ac_simps)
  qed
qed

lemma hits_index:
  assumes "c < cs" "i \<in> set (hits bi n nb cs (b * cs + c))"
  shows "i < n \<and> unat (bi ! i) = b \<and> b < nb"
proof -
  define k where "k = unat (bi ! i)"
  have k: "i < n" "k < nb" "k * cs \<le> b * cs + c" "b * cs + c < k * cs + cs"
    using assms(2) by (simp_all add: hits_def k_def)
  have "k = b"
  proof (rule ccontr)
    assume "k \<noteq> b"
    then consider "k < b" | "b < k" by linarith
    then show False
    proof cases
      case 1
      then have "(k + 1) * cs \<le> b * cs" by (intro mult_le_mono1) simp
      then show False using k by (simp add: algebra_simps)
    next
      case 2
      then have "(b + 1) * cs \<le> k * cs" by (intro mult_le_mono1) simp
      then show False using k assms(1) by (simp add: algebra_simps)
    qed
  qed
  then show ?thesis
    using k by (simp add: k_def)
qed


section \<open>The dense-matrix block\<close>




















section \<open>Slots, frame and conservation\<close>

text \<open>
  Claim C2, amended. With a zero-initialised \<open>bucket_accum\<close>, \<open>num_points = 5\<close>,
  \<open>num_buckets = 3\<close>, \<open>coord_size = 1\<close>, \<open>bucket_indices = [1, 0, 2, 3, 1]\<close> and
  \<open>point_coords = [10, 20, 30, 40, 50]\<close>, the accumulation loop of
  \<open>blas_bucket_accumulate\<close> that the claim cites (lines 222--232,
  \<open>blas_bucket_accumulate_fallback\<close>) produces \<open>[20, 60, 30]\<close>: point 1 (index 0) goes
  to slot 0, points 0 and 4 (index 1) to slot 1, point 2 (index 2) to slot 2, and point
  3 (index 3, not below \<open>num_buckets\<close>) is skipped. The values are integers far below
  \<open>2^53\<close>, which doubles add exactly, so the run is evaluated on real numbers.
\<close>

theorem blas_bucket_scenario:
  "blas_bucket_accumulate_fallback [1, 0, 2, 3, 1] [10, 20, 30, 40, 50 :: real] [0, 0, 0] 5 3 1
   = [20, 60, 30]"
  by (simp add: blas_bucket_accumulate_fallback_def upt_conv_Cons)

text \<open>
  Claim C2 as stated fails: the result it expects, \<open>[60, 30, 40]\<close>, is not what the
  function returns on this input.
\<close>

theorem blas_bucket_scenario_counterexample:
  "blas_bucket_accumulate_fallback [1, 0, 2, 3, 1] [10, 20, 30, 40, 50 :: real] [0, 0, 0] 5 3 1
   \<noteq> [60, 30, 40]"
  by (simp add: blas_bucket_accumulate_fallback_def upt_conv_Cons)

text \<open>
  The same scenario through the whole function: on either platform and whatever the
  allocations return, the result is \<open>[20, 60, 30]\<close>.
\<close>

lemma blas_bucket_scenario_every_path:
  "blas_bucket_accumulate APPLE calloc_indicator malloc_point_col malloc_bucket_col
     [1, 0, 2, 3, 1] [10, 20, 30, 40, 50 :: real] [0, 0, 0] 5 3 1 = [20, 60, 30]"
proof (cases "APPLE \<and> calloc_indicator \<and> malloc_point_col 0 \<and> malloc_bucket_col 0")
  case True
  then show ?thesis
    by (simp add: blas_bucket_accumulate_def fill_indicator_def dense_coordinate_def
        cblas_dgemv_trans_def upt_conv_Cons Let_def)
next
  case False
  then show ?thesis
    by (auto simp add: blas_bucket_accumulate_def blas_bucket_accumulate_fallback_def
        upt_conv_Cons Let_def)
qed



text \<open>
  The case in which a sum is added twice, on a run: one point \<open>(5, 7)\<close> with index 0,
  one bucket, and the allocation of round 1 fails. Round 0 has added 5 to coordinate
  0 of the slot, and the direct loop then adds the whole point.
\<close>

lemma blas_bucket_accumulate_abandoned:
  "blas_bucket_accumulate True True (\<lambda>c. c \<noteq> 1) (\<lambda>c. True) [0] [5, 7 :: int] [0, 0] 1 1 2
   = [10, 7]"
  by (simp add: blas_bucket_accumulate_def blas_bucket_accumulate_fallback_def
      fill_indicator_def dense_coordinate_def cblas_dgemv_trans_def upt_conv_Cons Let_def)

text \<open>
  Claim C10. On the direct accumulation path (\<open>blas_bucket_accumulate_fallback\<close>,
  lines 222--232), a slot \<open>b\<close> that no point \<open>i < num_points\<close>
  names keeps its prior value in every coordinate position; and every position of the
  array ends as its prior value with the coordinates of the points that hit it added
  one after the other, so a position no point hits is unchanged and every change is an
  addition.
\<close>

theorem blas_bucket_frame:
  fixes bucket_accum point_coords :: "'a::plus list" and bucket_indices :: "u32 list"
    and num_points num_buckets coord_size :: nat
  defines "R \<equiv> blas_bucket_accumulate_fallback bucket_indices point_coords bucket_accum
                  num_points num_buckets coord_size"
  shows "length R = length bucket_accum
       \<and> (\<forall>b c. c < coord_size \<and> b * coord_size + c < length bucket_accum \<and>
                 (\<forall>i < num_points. unat (bucket_indices ! i) \<noteq> b) \<longrightarrow>
                 R ! (b * coord_size + c) = bucket_accum ! (b * coord_size + c))
       \<and> (\<forall>p < length bucket_accum.
            R ! p = foldl (+) (bucket_accum ! p)
                      (map (\<lambda>i. point_coords ! (i * coord_size + (p - unat (bucket_indices ! i) * coord_size)))
                           (hits bucket_indices num_points num_buckets coord_size p)))"
proof (intro conjI allI impI)
  show "length R = length bucket_accum"
    by (simp add: R_def blas_bucket_accumulate_fallback_length)
next
  fix p assume "p < length bucket_accum"
  then show "R ! p = foldl (+) (bucket_accum ! p)
      (map (\<lambda>i. point_coords ! (i * coord_size + (p - unat (bucket_indices ! i) * coord_size)))
           (hits bucket_indices num_points num_buckets coord_size p))"
    unfolding R_def by (rule blas_bucket_accumulate_fallback_nth)
next
  fix b c
  assume h: "c < coord_size \<and> b * coord_size + c < length bucket_accum \<and>
             (\<forall>i < num_points. unat (bucket_indices ! i) \<noteq> b)"
  have "i \<notin> set (hits bucket_indices num_points num_buckets coord_size (b * coord_size + c))"
    for i
  proof
    assume "i \<in> set (hits bucket_indices num_points num_buckets coord_size (b * coord_size + c))"
    then have "i < num_points \<and> unat (bucket_indices ! i) = b \<and> b < num_buckets"
      using h by (intro hits_index) simp_all
    with h show False by blast
  qed
  then have "hits bucket_indices num_points num_buckets coord_size (b * coord_size + c) = []"
    by (cases "hits bucket_indices num_points num_buckets coord_size (b * coord_size + c)") auto
  then show "R ! (b * coord_size + c) = bucket_accum ! (b * coord_size + c)"
    unfolding R_def using h by (simp add: blas_bucket_accumulate_fallback_nth)
qed

theorem blas_bucket_frame_witness:
  "blas_bucket_accumulate_fallback [0, 3, 0] [7, 8, 9 :: real] [1, 2, 4] 3 3 1 ! (1 * 1 + 0)
   = [1, 2, 4] ! (1 * 1 + 0)"
proof -
  have "unat ([0, 3, 0 :: u32] ! i) \<noteq> 1" if "i < 3" for i
  proof -
    from that have "i = 0 \<or> i = 1 \<or> i = 2" by linarith
    then show ?thesis by auto
  qed
  then have "(0::nat) < 1 \<and> 1 * 1 + 0 < length [1, 2, 4 :: real] \<and>
        (\<forall>i < 3. unat ([0, 3, 0 :: u32] ! i) \<noteq> 1)"
    by simp
  with blas_bucket_frame [of "[0, 3, 0]" "[7, 8, 9 :: real]" "[1, 2, 4]" 3 3 1]
  show ?thesis by blast
qed

lemma sum_list_replicate_zero: "sum_list (replicate n (0 :: 'a::monoid_add)) = 0"
  by (induction n) simp_all

text \<open>
  Claim C8 as stated fails for the direct loop of \<open>blas_bucket_accumulate\<close>
  (\<open>blas_bucket_accumulate_fallback\<close>): a point whose index
  is 0 is accumulated (into slot 0). One point with coordinate 5 and index 0, one
  bucket (\<open>w = 1\<close>): the buckets sum to 5, the points with a non-zero index to 0.
\<close>

theorem bucket_conservation_counterexample:
  "sum_list (blas_bucket_accumulate_fallback [0] [5 :: int] (replicate 1 0) 1 1 1)
   \<noteq> sum_list (map (\<lambda>i. [5] ! i) (filter (\<lambda>i. [0 :: u32] ! i \<noteq> 0) [0..<1]))"
  by (simp add: blas_bucket_accumulate_fallback_def)

text \<open>
  Claim C8, amended. Starting from zero-initialised buckets, with \<open>num_buckets = 2^w - 1\<close>
  and exact addition (a commutative monoid, as for integral coordinates that doubles
  add without rounding): for \<open>sme_bucket_outer_product\<close> the sum over all buckets equals
  the sum of the points whose digit \<open>scalar & (2^w - 1)\<close> is not zero; for
  the direct loop of \<open>blas_bucket_accumulate\<close> (\<open>blas_bucket_accumulate_fallback\<close>) the
  sum over all bucket slots and coordinates equals the sum
  of the coordinates of the points whose bucket index is below \<open>num_buckets\<close> (index 0
  included, index \<open>num_buckets\<close> excluded).
\<close>

theorem bucket_conservation:
  fixes points point_coords :: "'a::comm_monoid_add list"
  assumes "window_size < 64" and "num_buckets = 2 ^ window_size - 1"
  shows "sum_list (fst (sme_bucket_outer_product scalars points (replicate num_buckets 0)
                          num_points num_buckets window_size))
         = sum_list (map (\<lambda>i. points ! i)
             (filter (\<lambda>i. scalars ! i AND (push_bit window_size 1 - 1) \<noteq> 0) [0..<num_points]))
       \<and> sum_list (blas_bucket_accumulate_fallback bucket_indices point_coords
                     (replicate (num_buckets * coord_size) 0) num_points num_buckets coord_size)
         = sum_list (map (\<lambda>i. sum_list (map (\<lambda>c. point_coords ! (i * coord_size + c)) [0..<coord_size]))
             (filter (\<lambda>i. unat (bucket_indices ! i) < num_buckets) [0..<num_points]))"
proof
  show "sum_list (fst (sme_bucket_outer_product scalars points (replicate num_buckets 0)
                          num_points num_buckets window_size))
         = sum_list (map (\<lambda>i. points ! i)
             (filter (\<lambda>i. scalars ! i AND (push_bit window_size 1 - 1) \<noteq> 0) [0..<num_points]))"
    using assms by (subst sme_bucket_outer_product_sum) (simp_all add: sum_list_replicate_zero)
next
  show "sum_list (blas_bucket_accumulate_fallback bucket_indices point_coords
                     (replicate (num_buckets * coord_size) 0) num_points num_buckets coord_size)
         = sum_list (map (\<lambda>i. sum_list (map (\<lambda>c. point_coords ! (i * coord_size + c)) [0..<coord_size]))
             (filter (\<lambda>i. unat (bucket_indices ! i) < num_buckets) [0..<num_points]))"
    by (subst blas_bucket_accumulate_fallback_sum) (simp_all add: sum_list_replicate_zero)
qed

theorem bucket_conservation_witness:
  "sum_list (fst (sme_bucket_outer_product [1, 0, 2, 3, 1] [10, 20, 30, 40, 50 :: int]
                    (replicate 3 0) 5 3 2))
   = sum_list (map (\<lambda>i. [10, 20, 30, 40, 50] ! i)
       (filter (\<lambda>i. [1, 0, 2, 3, 1 :: u64] ! i AND (push_bit 2 1 - 1) \<noteq> 0) [0..<5]))
   \<and> sum_list (blas_bucket_accumulate_fallback [1, 0, 2, 3, 1] [10, 20, 30, 40, 50 :: int]
                  (replicate (3 * 1) 0) 5 3 1)
   = sum_list (map (\<lambda>i. sum_list (map (\<lambda>c. [10, 20, 30, 40, 50] ! (i * 1 + c)) [0..<1]))
       (filter (\<lambda>i. unat ([1, 0, 2, 3, 1 :: u32] ! i) < 3) [0..<5]))"
  by (rule bucket_conservation) simp_all

end
